theory Spec2Isabelle
  imports Main "HOL-Library.Multiset" "HOL-Library.List_Lexorder" "HOL-Library.Product_Lexorder"
begin

section \<open>Strings\<close>

text \<open>
  A Python \<^verbatim>\<open>str\<close> is a sequence of Unicode code points: a list of integers, \<^verbatim>\<open>ord(c)\<close>
  being the element itself. \<open>ustr\<close> reads an ASCII literal as such a string.
\<close>

type_synonym ustring = "int list"

abbreviation ord :: "char \<Rightarrow> int" where
  "ord c \<equiv> of_char c"

abbreviation ustr :: "string \<Rightarrow> ustring" where
  "ustr s \<equiv> map of_char s"

section \<open>Exemption map (finder.py, class ExemptionsMap)\<close>

text \<open>
  \<^verbatim>\<open>ExemptionsMap._exemptions\<close> is a Python \<^verbatim>\<open>Dict[int, Set[int]]\<close>. The dictionary is a
  partial function; each value, a Python set, is given by the list of its elements in the
  order in which the runtime iterates over it (the partitioner runs a \<^verbatim>\<open>for\<close> loop over
  it). Membership and set difference only look at \<open>set\<close> of that list.
\<close>

type_synonym 'a exemptions = "'a \<Rightarrow> 'a list option"

definition contains :: "'a exemptions \<Rightarrow> 'a \<Rightarrow> bool" where
  "contains E book_id = (E book_id \<noteq> None)"

definition merge_sets :: "'a exemptions \<Rightarrow> 'a \<Rightarrow> 'a list" where
  "merge_sets E book_id = (case E book_id of None \<Rightarrow> [] | Some s \<Rightarrow> s)"

definition set_add :: "'a list \<Rightarrow> 'a \<Rightarrow> 'a list" where
  "set_add s x = (if x \<in> set s then s else s @ [x])"

definition add_exemption :: "'a exemptions \<Rightarrow> 'a \<Rightarrow> 'a \<Rightarrow> 'a exemptions" where
  "add_exemption E book_id1 book_id2 =
     (let E1 = (if E book_id1 = None then E(book_id1 \<mapsto> []) else E);
          E2 = (if E1 book_id2 = None then E1(book_id2 \<mapsto> []) else E1);
          E3 = E2(book_id1 \<mapsto> set_add (merge_sets E2 book_id1) book_id2)
      in E3(book_id2 \<mapsto> set_add (merge_sets E3 book_id2) book_id1))"

section \<open>Exemption partitioner (finder.py, \_partition\_using\_exemptions)\<close>

text \<open>
  The source keeps two lists grown in lockstep, \<^verbatim>\<open>results\<close> and \<^verbatim>\<open>partitioning_ids\<close>;
  an entry here is the pair of \<^verbatim>\<open>results[i]\<close> and \<^verbatim>\<open>partitioning_ids[i]\<close>
  (\<open>None\<close> for Python's \<^verbatim>\<open>None\<close>).
\<close>

type_synonym 'a entry = "'a set \<times> 'a option"

text \<open>
  The partitions appended while entry \<open>res\<close> is handled for \<open>one_dup\<close>:
  \<^verbatim>\<open>for nd in ndm_entry: if nd > one_dup and nd in res: results.append(...)\<close>.
\<close>

definition spawn :: "'a::linorder \<Rightarrow> 'a list \<Rightarrow> 'a set \<Rightarrow> 'a entry list" where
  "spawn one_dup ndm_entry res =
     map (\<lambda>nd. (insert nd (res - set ndm_entry - {one_dup}), Some nd))
         (filter (\<lambda>nd. nd > one_dup \<and> nd \<in> res) ndm_entry)"

text \<open>
  \<^verbatim>\<open>for i, res in enumerate(results)\<close> walks a list that the loop body appends to, so
  the appended partitions are visited by the same loop. \<open>scan\<close> keeps the entries already
  visited (\<open>acc\<close>) and those still to visit (\<open>todo\<close>); \<^verbatim>\<open>results\<close> is \<open>acc @ todo\<close>.
\<close>

function scan :: "'a::linorder \<Rightarrow> 'a list \<Rightarrow> 'a entry list \<Rightarrow> 'a entry list \<Rightarrow> 'a entry list" where
  "scan one_dup ndm_entry acc [] = acc"
| "scan one_dup ndm_entry acc ((res, pid) # todo) =
     (if one_dup \<in> res then
        (if Some one_dup = pid then
           scan one_dup ndm_entry (acc @ [(insert one_dup (res - set ndm_entry), pid)]) todo
         else
           scan one_dup ndm_entry (acc @ [(insert one_dup (res - set ndm_entry), pid)])
                (todo @ spawn one_dup ndm_entry res))
      else scan one_dup ndm_entry (acc @ [(res, pid)]) todo)"
  by pat_completeness auto

definition scan_weight :: "'a \<Rightarrow> 'a list \<Rightarrow> 'a entry list \<Rightarrow> nat" where
  "scan_weight d X todo = sum_list (map (\<lambda>e. if d \<in> fst e then Suc (length X) else 1) todo)"

lemma scan_weight_append:
  "scan_weight d X (xs @ ys) = scan_weight d X xs + scan_weight d X ys"
  by (simp add: scan_weight_def)

lemma spawn_not_mem: "e \<in> set (spawn d X res) \<Longrightarrow> d \<notin> fst e"
  by (auto simp: spawn_def)

lemma scan_weight_no_mem: "(\<And>e. e \<in> set xs \<Longrightarrow> d \<notin> fst e) \<Longrightarrow> scan_weight d X xs = length xs"
  by (induction xs) (simp_all add: scan_weight_def)

lemma scan_weight_spawn: "scan_weight d X (spawn d X res) \<le> length X"
proof -
  have "scan_weight d X (spawn d X res) = length (spawn d X res)"
    by (rule scan_weight_no_mem) (rule spawn_not_mem)
  also have "\<dots> \<le> length X"
    by (simp add: spawn_def)
  finally show ?thesis .
qed

termination scan
proof (relation "measure (\<lambda>(d, X, acc, todo). scan_weight d X todo)")
  show "wf (measure (\<lambda>(d, X, acc, todo). scan_weight d X todo))" by simp
next
  fix one_dup :: 'a and ndm_entry acc res pid todo
  show "((one_dup, ndm_entry, acc @ [(insert one_dup (res - set ndm_entry), pid)], todo),
         (one_dup, ndm_entry, acc, (res, pid) # todo))
        \<in> measure (\<lambda>(d, X, acc, todo). scan_weight d X todo)"
    by (simp add: scan_weight_def)
next
  fix one_dup :: 'a and ndm_entry acc res pid todo
  assume "one_dup \<in> res"
  then show "((one_dup, ndm_entry, acc @ [(insert one_dup (res - set ndm_entry), pid)],
          todo @ spawn one_dup ndm_entry res),
         (one_dup, ndm_entry, acc, (res, pid) # todo))
        \<in> measure (\<lambda>(d, X, acc, todo). scan_weight d X todo)"
    using scan_weight_spawn [of one_dup ndm_entry res]
    by (simp add: scan_weight_append) (simp add: scan_weight_def)
next
  fix one_dup :: 'a and ndm_entry acc res pid todo
  show "((one_dup, ndm_entry, acc @ [(res, pid)], todo),
         (one_dup, ndm_entry, acc, (res, pid) # todo))
        \<in> measure (\<lambda>(d, X, acc, todo). scan_weight d X todo)"
    by (simp add: scan_weight_def)
qed

text \<open>The outer loop \<^verbatim>\<open>for one_dup in data_items\<close>.\<close>

fun run :: "'a::linorder exemptions \<Rightarrow> 'a list \<Rightarrow> 'a entry list \<Rightarrow> 'a entry list" where
  "run E [] results = results"
| "run E (one_dup # rest) results =
     run E rest (if contains E one_dup
                 then scan one_dup (merge_sets E one_dup) [] results
                 else results)"

definition partition_using_exemptions :: "'a::linorder list \<Rightarrow> 'a exemptions \<Rightarrow> 'a list list" where
  "partition_using_exemptions data_items E =
     (let ds = sort data_items;
          results = run E ds [(set ds, None)]
      in sort (map sorted_list_of_set (filter (\<lambda>r. card r > 1) (map fst results))))"

section \<open>Candidate maps and the orchestrator (finder.py)\<close>

text \<open>
  A candidate map is a Python \<^verbatim>\<open>defaultdict(set)\<close>: a dictionary that remembers the order
  in which its keys were inserted, so it is an association list (keys without repetition, in
  insertion order) of sets of ids. Reading a key that is absent gives the empty set.
\<close>

type_synonym ('k, 'a) candidates = "('k \<times> 'a set) list"

definition lookup :: "('k, 'a) candidates \<Rightarrow> 'k \<Rightarrow> 'a set" where
  "lookup candidates_map k = (case map_of candidates_map k of None \<Rightarrow> {} | Some v \<Rightarrow> v)"

text \<open>\<^verbatim>\<open>candidates_map[key].add(book_id)\<close>\<close>

definition add_candidate :: "('k, 'a) candidates \<Rightarrow> 'k \<Rightarrow> 'a \<Rightarrow> ('k, 'a) candidates" where
  "add_candidate candidates_map key book_id =
     (if key \<in> fst ` set candidates_map
      then map (\<lambda>(k, v). if k = key then (k, insert book_id v) else (k, v)) candidates_map
      else candidates_map @ [(key, {book_id})])"

definition shrink_candidates_map :: "('k, 'a) candidates \<Rightarrow> ('k, 'a) candidates" where
  "shrink_candidates_map candidates_map = filter (\<lambda>(k, v). \<not> card v < 2) candidates_map"

text \<open>
  \<^verbatim>\<open>sorted(keys, key=..., reverse=True)\<close> keeps the original order of elements with equal
  sort keys: it is the stable ascending sort of the reversed list, reversed.
\<close>

definition sort_candidate_groups :: "('k::linorder, 'a) candidates \<Rightarrow> bool \<Rightarrow> ('k, 'a) candidates" where
  "sort_candidate_groups candidates_map by_title =
     (let skeys = (if by_title then sort (map fst candidates_map)
                   else rev (sort_key (\<lambda>k. (card (lookup candidates_map k), k))
                                      (rev (map fst candidates_map))))
      in map (\<lambda>k. (k, lookup candidates_map k)) skeys)"

text \<open>
  The \<^verbatim>\<open>for ... else\<close> of \<^verbatim>\<open>_clean_dup_groups\<close>: \<open>a\<close> is kept when the inner loop over
  the later sets ends without \<^verbatim>\<open>break\<close>, that is when none of them includes \<open>a\<close>.
\<close>

fun remove_subsets :: "'a set list \<Rightarrow> 'a set list" where
  "remove_subsets [] = []"
| "remove_subsets (a # res) =
     (if list_ex (\<lambda>b. a \<subseteq> b) res then remove_subsets res else a # remove_subsets res)"

definition clean_dup_groups :: "('k, 'a) candidates \<Rightarrow> 'a set list" where
  "clean_dup_groups candidates_map = remove_subsets (sort_key card (map snd candidates_map))"

record 'a DuplicateGroup =
  group_id :: nat
  book_ids :: "'a list"
  match_key :: ustring

text \<open>The loops of \<^verbatim>\<open>_convert_to_groups\<close>; the state is \<^verbatim>\<open>(groups, group_id)\<close>.\<close>

fun add_partitions ::
  "'a::linorder list list \<Rightarrow> 'a DuplicateGroup list \<times> nat \<Rightarrow> 'a DuplicateGroup list \<times> nat" where
  "add_partitions [] st = st"
| "add_partitions (part # rest) (groups, gid) =
     (if length part > 1
      then add_partitions rest
             (groups @ [\<lparr>group_id = gid + 1, book_ids = sort part, match_key = []\<rparr>], gid + 1)
      else add_partitions rest (groups, gid))"

text \<open>
  \<^verbatim>\<open>list(book_ids)\<close> lists the set in the runtime's iteration order; the partitioner sorts
  its argument first, so the ascending list stands for it.
\<close>

fun convert_loop ::
  "'a::linorder set list \<Rightarrow> 'a exemptions \<Rightarrow> 'a DuplicateGroup list \<times> nat \<Rightarrow> 'a DuplicateGroup list \<times> nat" where
  "convert_loop [] E st = st"
| "convert_loop (ids # rest) E st =
     convert_loop rest E (add_partitions (partition_using_exemptions (sorted_list_of_set ids) E) st)"

definition convert_to_groups :: "('k, 'a::linorder) candidates \<Rightarrow> 'a exemptions \<Rightarrow> 'a DuplicateGroup list" where
  "convert_to_groups candidates_map E = fst (convert_loop (clean_dup_groups candidates_map) E ([], 0))"

text \<open>
  \<^verbatim>\<open>find_duplicates\<close> after the candidate map of the selected search type has been built
  (search types \<^verbatim>\<open>title_author\<close>, \<^verbatim>\<open>identifier\<close> and \<^verbatim>\<open>binary\<close>): shrink, sort, convert.
\<close>

definition find_duplicates_from ::
  "('k::linorder, 'a::linorder) candidates \<Rightarrow> bool \<Rightarrow> 'a exemptions \<Rightarrow> 'a DuplicateGroup list" where
  "find_duplicates_from candidates_map sort_by_title E =
     convert_to_groups (sort_candidate_groups (shrink_candidates_map candidates_map) sort_by_title) E"

section \<open>The runtime's character tables\<close>

text \<open>
  The source calls into the Python runtime for everything that depends on the Unicode
  character database: \<^verbatim>\<open>str.lower\<close>, \<^verbatim>\<open>str.upper\<close>, the whitespace test behind
  \<^verbatim>\<open>str.split()\<close>, \<^verbatim>\<open>str.strip()\<close> and the regular expression class \<^verbatim>\<open>\s\<close>,
  \<^verbatim>\<open>unicodedata\<close>, and \<^verbatim>\<open>str(...)\<close> of a list of strings. These tables are not part of the repository; the functions below take
  them as a parameter.
\<close>

record runtime =
  lower :: "ustring \<Rightarrow> ustring"
  upper :: "ustring \<Rightarrow> ustring"
  isspace :: "int \<Rightarrow> bool"
  decomposition :: "int \<Rightarrow> ustring"
  combining :: "int \<Rightarrow> nat"
  is_Mn :: "int \<Rightarrow> bool"
  str_list :: "ustring list \<Rightarrow> ustring"

text \<open>
  \<^verbatim>\<open>unicodedata.normalize('NFD', text)\<close> as the Unicode standard defines it: every
  character is replaced by its full canonical decomposition (\<open>decomposition\<close>), then
  the canonical ordering algorithm runs: a character moves in front of its left neighbour
  while that neighbour has a greater canonical combining class (\<open>combining\<close>) and its own
  class is not zero. \<open>reorder_insert\<close> puts one character in front of a string that is
  already ordered.
\<close>

fun reorder_insert :: "(int \<Rightarrow> nat) \<Rightarrow> int \<Rightarrow> ustring \<Rightarrow> ustring" where
  "reorder_insert ccc c [] = [c]"
| "reorder_insert ccc c (x # xs) =
     (if 0 < ccc x \<and> ccc x < ccc c then x # reorder_insert ccc c xs else c # x # xs)"

definition canonical_order :: "(int \<Rightarrow> nat) \<Rightarrow> ustring \<Rightarrow> ustring" where
  "canonical_order ccc s = foldr (reorder_insert ccc) s []"

definition normalize_NFD :: "runtime \<Rightarrow> ustring \<Rightarrow> ustring" where
  "normalize_NFD rt text = canonical_order (combining rt) (concat (map (decomposition rt) text))"

subsection \<open>String methods and the regular expressions of matching.py\<close>

text \<open>\<^verbatim>\<open>s.split()\<close>: the maximal runs of characters that are not whitespace.\<close>

fun split_ws :: "(int \<Rightarrow> bool) \<Rightarrow> ustring \<Rightarrow> ustring \<Rightarrow> ustring list" where
  "split_ws sp cur [] = (if cur = [] then [] else [cur])"
| "split_ws sp cur (c # cs) =
     (if sp c then (if cur = [] then split_ws sp [] cs else cur # split_ws sp [] cs)
      else split_ws sp (cur @ [c]) cs)"

definition split :: "runtime \<Rightarrow> ustring \<Rightarrow> ustring list" where
  "split rt s = split_ws (isspace rt) [] s"

text \<open>\<^verbatim>\<open>s.split(sep)\<close> for a separator of one character: empty pieces are kept.\<close>

fun split_on :: "int \<Rightarrow> ustring \<Rightarrow> ustring \<Rightarrow> ustring list" where
  "split_on sep cur [] = [cur]"
| "split_on sep cur (c # cs) =
     (if c = sep then cur # split_on sep [] cs else split_on sep (cur @ [c]) cs)"

definition strip :: "runtime \<Rightarrow> ustring \<Rightarrow> ustring" where
  "strip rt s = rev (dropWhile (isspace rt) (rev (dropWhile (isspace rt) s)))"

text \<open>\<^verbatim>\<open>s.replace(a, b)\<close> for single characters.\<close>

definition replace :: "int \<Rightarrow> int \<Rightarrow> ustring \<Rightarrow> ustring" where
  "replace a b s = map (\<lambda>c. if c = a then b else c) s"

text \<open>\<^verbatim>\<open>sep.join(parts)\<close>\<close>

fun join :: "ustring \<Rightarrow> ustring list \<Rightarrow> ustring" where
  "join sep [] = []"
| "join sep [x] = x"
| "join sep (x # y # ys) = x @ sep @ join sep (y # ys)"

text \<open>
  \<^verbatim>\<open>re.compile(r',([^\s])').sub(', \\1', author)\<close>: matches are found from left to
  right and do not overlap, so the character after a rewritten comma is consumed.
\<close>

fun comma_no_space_sub :: "(int \<Rightarrow> bool) \<Rightarrow> ustring \<Rightarrow> ustring" where
  "comma_no_space_sub sp [] = []"
| "comma_no_space_sub sp [c] = [c]"
| "comma_no_space_sub sp (c # d # rest) =
     (if c = ord CHR '','' \<and> \<not> sp d
      then c # ord CHR '' '' # d # comma_no_space_sub sp rest
      else c # comma_no_space_sub sp (d # rest))"

text \<open>\<^verbatim>\<open>re.compile(r'[-+.:;]').sub(' ', s)\<close>\<close>

definition replace_pat_sub :: "ustring \<Rightarrow> ustring" where
  "replace_pat_sub s = map (\<lambda>c. if c \<in> set (ustr ''-+.:;'') then ord CHR '' '' else c) s"

text \<open>
  \<^verbatim>\<open>remove_pat.sub('', tok)\<close>; the class of the author tokenizer is
  \<^verbatim>\<open>[,!@#$%^&*(){}`~"\s\[\]/]\<close>, the series, publisher and tag tokenizers add the
  apostrophe.
\<close>

definition author_remove_chars :: ustring where
  "author_remove_chars = ustr '',!@#$%^&*(){}`~'' @ [34] @ ustr ''[]/''"

definition remove_chars :: ustring where
  "remove_chars = ustr '',!@#$%^&*(){}`~'' @ [39, 34] @ ustr ''[]/''"

definition remove_pat_sub :: "runtime \<Rightarrow> ustring \<Rightarrow> ustring \<Rightarrow> ustring" where
  "remove_pat_sub rt cls tok = filter (\<lambda>c. \<not> (c \<in> set cls \<or> isspace rt c)) tok"

section \<open>matching.py\<close>

subsection \<open>Soundex lengths (module-level variables and their setters)\<close>

record config =
  title_soundex_length :: int
  author_soundex_length :: int
  publisher_soundex_length :: int
  series_soundex_length :: int
  tags_soundex_length :: int

definition default_config :: config where
  "default_config = \<lparr>title_soundex_length = 6, author_soundex_length = 8,
     publisher_soundex_length = 6, series_soundex_length = 6, tags_soundex_length = 4\<rparr>"

definition set_publisher_soundex_length :: "int \<Rightarrow> config \<Rightarrow> config" where
  "set_publisher_soundex_length publisher_len cfg = cfg\<lparr>publisher_soundex_length := publisher_len\<rparr>"

definition set_series_soundex_length :: "int \<Rightarrow> config \<Rightarrow> config" where
  "set_series_soundex_length series_len cfg = cfg\<lparr>series_soundex_length := series_len\<rparr>"

definition set_tags_soundex_length :: "int \<Rightarrow> config \<Rightarrow> config" where
  "set_tags_soundex_length tags_len cfg = cfg\<lparr>tags_soundex_length := tags_len\<rparr>"

subsection \<open>decode\_unicode\<close>

definition decode_unicode :: "runtime \<Rightarrow> ustring \<Rightarrow> ustring" where
  "decode_unicode rt text =
     (if text = [] then text
      else filter (\<lambda>char. \<not> is_Mn rt char) (normalize_NFD rt text))"

subsection \<open>soundex\<close>

definition digits :: ustring where
  "digits = ustr ''01230120022455012623010202''"

text \<open>The body of the loop over \<^verbatim>\<open>name.upper()\<close>; the state is \<^verbatim>\<open>(sndx, fc)\<close>.\<close>

definition soundex_step :: "ustring \<times> ustring \<Rightarrow> int \<Rightarrow> ustring \<times> ustring" where
  "soundex_step st c =
     (case st of (sndx, fc) \<Rightarrow>
        if ord CHR ''A'' \<le> c \<and> c \<le> ord CHR ''Z'' then
          (let fc' = (if fc = [] then [c] else fc);
               d = digits ! nat (c - ord CHR ''A'')
           in if sndx = [] \<or> d \<noteq> last sndx then (sndx @ [d], fc') else (sndx, fc'))
        else (sndx, fc))"

text \<open>
  \<^verbatim>\<open>s[:length]\<close> for a Python integer: a negative \<^verbatim>\<open>length\<close> counts from the end;
  \<^verbatim>\<open>length * '0'\<close> is empty when \<^verbatim>\<open>length\<close> is not positive.
\<close>

definition slice_to :: "int \<Rightarrow> ustring \<Rightarrow> ustring" where
  "slice_to n s = (if 0 \<le> n then take (nat n) s else take (nat (int (length s) + n)) s)"

definition soundex :: "runtime \<Rightarrow> ustring \<Rightarrow> int \<Rightarrow> ustring" where
  "soundex rt name len =
     (case foldl soundex_step ([], []) (upper rt name) of (sndx, fc) \<Rightarrow>
        (let sndx1 = fc @ drop 1 sndx;
             sndx2 = filter (\<lambda>c. c \<noteq> ord CHR ''0'') sndx1
         in slice_to len (sndx2 @ replicate (nat len) (ord CHR ''0''))))"

text \<open>
  The procedure of the specification, in its words: uppercase; keep the characters A to Z
  and map them through the table; collapse consecutive duplicate digits; replace the first
  digit with the first alphabetic character; delete the zeros; pad on the right with zeros
  and truncate to the requested length.
\<close>

definition soundex_spec :: "runtime \<Rightarrow> ustring \<Rightarrow> nat \<Rightarrow> ustring" where
  "soundex_spec rt s len =
     (let letters = filter (\<lambda>c. ord CHR ''A'' \<le> c \<and> c \<le> ord CHR ''Z'') (upper rt s);
          code = remdups_adj (map (\<lambda>c. digits ! nat (c - ord CHR ''A'')) letters);
          replaced = take 1 letters @ tl code;
          no_zero = filter (\<lambda>c. c \<noteq> ord CHR ''0'') replaced
      in take len (no_zero @ replicate len (ord CHR ''0'')))"

subsection \<open>Tokenizers\<close>

definition ignore_author_words :: "ustring list" where
  "ignore_author_words = map ustr [''von'', ''van'', ''jr'', ''sr'', ''i'', ''ii'', ''iii'',
     ''second'', ''third'', ''md'', ''phd'']"

text \<open>The loop that filters and lowers the tokens, shared in shape by all tokenizers.\<close>

definition token_filter :: "runtime \<Rightarrow> ustring \<Rightarrow> nat \<Rightarrow> ustring list \<Rightarrow> ustring list \<Rightarrow> ustring list" where
  "token_filter rt cls min_length ignore_words parts =
     concat (map (\<lambda>tok0.
        (let tok = strip rt (remove_pat_sub rt cls tok0)
         in if length tok > min_length \<and> lower rt tok \<notin> set ignore_words
            then [lower rt tok] else [])) parts)"

definition get_author_tokens :: "runtime \<Rightarrow> ustring \<Rightarrow> bool \<Rightarrow> bool \<Rightarrow> ustring list" where
  "get_author_tokens rt author decode_non_ascii strip_initials =
     (if author = [] then []
      else
        (let author1 = comma_no_space_sub (isspace rt) author;
             au0 = replace_pat_sub author1;
             au = (if decode_non_ascii then decode_unicode rt au0 else au0);
             parts0 = split rt au;
             parts = (if ord CHR '','' \<in> set au then drop 1 parts0 @ take 1 parts0 else parts0);
             min_length = (if strip_initials then 1 else 0)
         in token_filter rt author_remove_chars min_length ignore_author_words parts))"

definition get_series_tokens :: "runtime \<Rightarrow> ustring \<Rightarrow> bool \<Rightarrow> ustring list" where
  "get_series_tokens rt series decode_non_ascii =
     (if series = [] then []
      else
        (let s0 = replace_pat_sub series;
             s = (if decode_non_ascii then decode_unicode rt s0 else s0)
         in token_filter rt remove_chars 0 (map ustr [''the'', ''a'', ''and'']) (split rt s)))"

definition get_publisher_tokens :: "runtime \<Rightarrow> ustring \<Rightarrow> bool \<Rightarrow> ustring list" where
  "get_publisher_tokens rt publisher decode_non_ascii =
     (if publisher = [] then []
      else
        (let p0 = replace_pat_sub publisher;
             p = (if decode_non_ascii then decode_unicode rt p0 else p0)
         in token_filter rt remove_chars 0
              (map ustr [''the'', ''inc'', ''ltd'', ''limited'', ''llc'', ''co'', ''pty'', ''usa'', ''uk''])
              (split rt p)))"

definition get_tag_tokens :: "runtime \<Rightarrow> ustring \<Rightarrow> bool \<Rightarrow> ustring list" where
  "get_tag_tokens rt tag decode_non_ascii =
     (if tag = [] then []
      else
        (let t0 = replace_pat_sub tag;
             t = (if decode_non_ascii then decode_unicode rt t0 else t0)
         in token_filter rt remove_chars 0 (map ustr [''the'', ''and'', ''a'']) (split rt t)))"

subsection \<open>Match keys\<close>

text \<open>A Python value used as a condition: \<^verbatim>\<open>None\<close> and the empty string are false.\<close>

definition truthy :: "ustring option \<Rightarrow> bool" where
  "truthy x = (case x of None \<Rightarrow> False | Some s \<Rightarrow> s \<noteq> [])"

text \<open>
  \<^verbatim>\<open>fuzzy_it\<close> with its default patterns, all compiled with \<^verbatim>\<open>re.IGNORECASE\<close>. The
  second pattern, \<^verbatim>\<open>^(a|the|an)\s+\<close>, matches at the start of the text only: the first
  of the three words that is followed by whitespace is removed with the whitespace after
  it; ignoring case, a letter of the pattern matches itself and its capital.
\<close>

definition starts_with_word :: "(int \<Rightarrow> bool) \<Rightarrow> ustring \<Rightarrow> ustring \<Rightarrow> bool" where
  "starts_with_word sp w text =
     (length w < length text
      \<and> list_all2 (\<lambda>l c. c = l \<or> c = l - 32) w (take (length w) text)
      \<and> sp (text ! length w))"

definition strip_article :: "(int \<Rightarrow> bool) \<Rightarrow> ustring \<Rightarrow> ustring" where
  "strip_article sp text =
     (if starts_with_word sp (ustr ''a'') text then dropWhile sp (drop 1 text)
      else if starts_with_word sp (ustr ''the'') text then dropWhile sp (drop 3 text)
      else if starts_with_word sp (ustr ''an'') text then dropWhile sp (drop 2 text)
      else text)"

text \<open>
  \<^verbatim>\<open>re.sub(r'\s+', ' ', text)\<close>: every maximal run of whitespace becomes one space;
  \<open>prev\<close> tells that the character before was whitespace.
\<close>

fun collapse_ws :: "(int \<Rightarrow> bool) \<Rightarrow> bool \<Rightarrow> ustring \<Rightarrow> ustring" where
  "collapse_ws sp prev [] = []"
| "collapse_ws sp prev (c # cs) =
     (if sp c then (if prev then collapse_ws sp True cs else ord CHR '' '' # collapse_ws sp True cs)
      else c # collapse_ws sp False cs)"

definition fuzzy_it :: "runtime \<Rightarrow> ustring \<Rightarrow> ustring" where
  "fuzzy_it rt text =
     (let t0 = lower rt (strip rt text);
          t1 = filter (\<lambda>c. c \<notin> set (ustr ''[](){}<>'' @ [39, 34] @ ustr '';,:#'')) t0;
          t2 = strip_article (isspace rt) t1;
          t3 = map (\<lambda>c. if c \<in> set (ustr ''-._'') then ord CHR '' '' else c) t2;
          t4 = collapse_ws (isspace rt) False t3
      in strip rt t4)"

definition identical_title_match :: "runtime \<Rightarrow> ustring \<Rightarrow> ustring option \<Rightarrow> ustring" where
  "identical_title_match rt title lang =
     (if truthy lang then the lang @ lower rt title else lower rt title)"

definition similar_title_match :: "runtime \<Rightarrow> ustring \<Rightarrow> ustring option \<Rightarrow> ustring" where
  "similar_title_match rt title lang =
     (let result = fuzzy_it rt (decode_unicode rt title)
      in if truthy lang then the lang @ result else result)"

definition soundex_title_match :: "runtime \<Rightarrow> config \<Rightarrow> ustring \<Rightarrow> ustring option \<Rightarrow> ustring" where
  "soundex_title_match rt cfg title lang =
     (let result = soundex rt (similar_title_match rt title None) (title_soundex_length cfg)
      in if truthy lang then the lang @ result else result)"

definition identical_authors_match :: "runtime \<Rightarrow> ustring \<Rightarrow> ustring \<times> ustring option" where
  "identical_authors_match rt author = (lower rt author, None)"

definition similar_authors_match :: "runtime \<Rightarrow> ustring \<Rightarrow> ustring \<times> ustring option" where
  "similar_authors_match rt author =
     (let author_tokens = get_author_tokens rt author True True;
          ahash = join (ustr '' '') author_tokens
      in if length author_tokens > 1
         then (ahash, Some (join (ustr '' '') (drop 1 author_tokens @ take 1 author_tokens)))
         else (ahash, None))"

text \<open>
  The three soundex builders of the series, publisher and tag fields. A call
  \<^verbatim>\<open>soundex(x)\<close> without a length uses the default of the parameter, 4.
\<close>

definition soundex_series_match :: "runtime \<Rightarrow> config \<Rightarrow> ustring \<Rightarrow> ustring" where
  "soundex_series_match rt cfg series =
     (let series_tokens = get_series_tokens rt series True
      in if length series_tokens \<le> 1 then soundex rt (join [] series_tokens) 4
         else soundex rt (join [] series_tokens) (series_soundex_length cfg))"

definition soundex_publisher_match :: "runtime \<Rightarrow> config \<Rightarrow> ustring \<Rightarrow> ustring" where
  "soundex_publisher_match rt cfg publisher =
     (let publisher_tokens = get_publisher_tokens rt publisher True
      in if length publisher_tokens \<le> 1 then soundex rt (join [] publisher_tokens) 4
         else soundex rt (join [] publisher_tokens) (publisher_soundex_length cfg))"

definition soundex_tags_match :: "runtime \<Rightarrow> config \<Rightarrow> ustring \<Rightarrow> ustring" where
  "soundex_tags_match rt cfg tag =
     (let tag_tokens = get_tag_tokens rt tag True
      in if length tag_tokens \<le> 1 then soundex rt (join [] tag_tokens) 4
         else soundex rt (join [] tag_tokens) (publisher_soundex_length cfg))"

subsection \<open>The library store as the finder reads it\<close>

record db =
  all_ids :: "int list"
  title :: "int \<Rightarrow> ustring option"
  authors :: "int \<Rightarrow> ustring option"
  languages :: "int \<Rightarrow> ustring option"
  get_identifiers :: "int \<Rightarrow> ustring \<Rightarrow> ustring option"

definition authors_to_list :: "runtime \<Rightarrow> db \<Rightarrow> int \<Rightarrow> ustring list" where
  "authors_to_list rt d book_id =
     (if truthy (authors d book_id)
      then map (\<lambda>a. replace (ord CHR ''|'') (ord CHR '','') (strip rt a))
               (split_on (ord CHR '','') [] (the (authors d book_id)))
      else [])"

section \<open>The title and author grouper (finder.py, \_find\_title\_author\_candidates)\<close>

text \<open>
  \<open>title_fn\<close> and \<open>author_fn\<close> are the functions the source obtains from
  \<^verbatim>\<open>get_title_algorithm_fn\<close> and \<^verbatim>\<open>get_author_algorithm_fn\<close>; \<open>author_fn\<close> is \<open>None\<close>
  when the author policy is \<^verbatim>\<open>ignore\<close>. Progress reports do not touch the result and are
  left out.
\<close>

definition add_author ::
  "ustring \<Rightarrow> (ustring \<Rightarrow> ustring \<times> ustring option) \<Rightarrow> int \<Rightarrow>
   (ustring, int) candidates \<Rightarrow> ustring \<Rightarrow> (ustring, int) candidates" where
  "add_author title_hash author_fn book_id candidates_map author =
     (case author_fn author of (author_hash, rev_author_hash) \<Rightarrow>
        (let cm1 = add_candidate candidates_map (title_hash @ author_hash) book_id
         in if truthy rev_author_hash \<and> rev_author_hash \<noteq> Some author_hash
            then add_candidate cm1 (title_hash @ the rev_author_hash) book_id
            else cm1))"

definition add_book ::
  "runtime \<Rightarrow> db \<Rightarrow> (ustring \<Rightarrow> ustring option \<Rightarrow> ustring) \<Rightarrow>
   (ustring \<Rightarrow> ustring \<times> ustring option) option \<Rightarrow> bool \<Rightarrow>
   (ustring, int) candidates \<Rightarrow> int \<Rightarrow> (ustring, int) candidates" where
  "add_book rt d title_fn author_fn include_languages candidates_map book_id =
     (if \<not> truthy (title d book_id) then candidates_map
      else
        (let lang = (if include_languages then languages d book_id else None);
             title_hash = title_fn (the (title d book_id)) lang;
             author_list = (if author_fn = None then [] else authors_to_list rt d book_id)
         in if author_fn \<noteq> None \<and> author_list \<noteq> []
            then foldl (add_author title_hash (the author_fn) book_id) candidates_map author_list
            else add_candidate candidates_map title_hash book_id))"

definition find_title_author_candidates ::
  "runtime \<Rightarrow> db \<Rightarrow> int list \<Rightarrow> (ustring \<Rightarrow> ustring option \<Rightarrow> ustring) \<Rightarrow>
   (ustring \<Rightarrow> ustring \<times> ustring option) option \<Rightarrow> bool \<Rightarrow> (ustring, int) candidates" where
  "find_title_author_candidates rt d ids title_fn author_fn include_languages =
     foldl (add_book rt d title_fn author_fn include_languages) [] ids"

section \<open>The identifier grouper (finder.py, \_find\_identifier\_candidates)\<close>

definition add_identifier :: "db \<Rightarrow> ustring \<Rightarrow> (ustring, int) candidates \<Rightarrow> int \<Rightarrow> (ustring, int) candidates" where
  "add_identifier d identifier_type candidates_map book_id =
     (let identifier = (case get_identifiers d book_id identifier_type of None \<Rightarrow> [] | Some v \<Rightarrow> v)
      in if identifier \<noteq> [] then add_candidate candidates_map identifier book_id
         else candidates_map)"

definition find_identifier_candidates :: "db \<Rightarrow> int list \<Rightarrow> ustring \<Rightarrow> (ustring, int) candidates" where
  "find_identifier_candidates d ids identifier_type = foldl (add_identifier d identifier_type) [] ids"

section \<open>Author-only search (finder.py, \_find\_author\_only\_duplicates)\<close>

text \<open>The state of the first loop is \<^verbatim>\<open>(candidates_map, author_bookids_map)\<close>.\<close>

definition add_author_only ::
  "(ustring \<Rightarrow> ustring \<times> ustring option) \<Rightarrow> int \<Rightarrow>
   (ustring, ustring) candidates \<times> (ustring, int) candidates \<Rightarrow> ustring \<Rightarrow>
   (ustring, ustring) candidates \<times> (ustring, int) candidates" where
  "add_author_only author_fn book_id st author =
     (case st of (candidates_map, author_bookids_map) \<Rightarrow>
        (case author_fn author of (author_hash, rev_author_hash) \<Rightarrow>
           (let cm1 = add_candidate candidates_map author_hash author
            in (if truthy rev_author_hash \<and> rev_author_hash \<noteq> Some author_hash
                then add_candidate cm1 (the rev_author_hash) author
                else cm1,
                add_candidate author_bookids_map author book_id))))"

definition author_only_maps ::
  "runtime \<Rightarrow> db \<Rightarrow> int list \<Rightarrow> (ustring \<Rightarrow> ustring \<times> ustring option) \<Rightarrow>
   (ustring, ustring) candidates \<times> (ustring, int) candidates" where
  "author_only_maps rt d ids author_fn =
     foldl (\<lambda>st book_id. foldl (add_author_only author_fn book_id) st (authors_to_list rt d book_id))
           ([], []) ids"

fun add_author_partitions ::
  "runtime \<Rightarrow> (ustring, int) candidates \<Rightarrow> ustring list list \<Rightarrow>
   int DuplicateGroup list \<times> nat \<Rightarrow> int DuplicateGroup list \<times> nat" where
  "add_author_partitions rt author_bookids_map [] st = st"
| "add_author_partitions rt author_bookids_map (part # rest) (groups, gid) =
     (let book_ids_in_group = foldl (\<lambda>s author. s \<union> lookup author_bookids_map author) {} part
      in if length part > 1 \<and> card book_ids_in_group > 1
         then add_author_partitions rt author_bookids_map rest
                (groups @ [\<lparr>group_id = gid + 1, book_ids = sorted_list_of_set book_ids_in_group,
                            match_key = str_list rt part\<rparr>], gid + 1)
         else add_author_partitions rt author_bookids_map rest (groups, gid))"

fun author_convert_loop ::
  "runtime \<Rightarrow> (ustring, int) candidates \<Rightarrow> ustring set list \<Rightarrow> ustring exemptions \<Rightarrow>
   int DuplicateGroup list \<times> nat \<Rightarrow> int DuplicateGroup list \<times> nat" where
  "author_convert_loop rt author_bookids_map [] E st = st"
| "author_convert_loop rt author_bookids_map (author_group # rest) E st =
     author_convert_loop rt author_bookids_map rest E
       (add_author_partitions rt author_bookids_map
          (partition_using_exemptions (sorted_list_of_set author_group) E) st)"

definition find_author_only_duplicates ::
  "runtime \<Rightarrow> db \<Rightarrow> ustring exemptions \<Rightarrow> int list \<Rightarrow>
   (ustring \<Rightarrow> ustring \<times> ustring option) \<Rightarrow> bool \<Rightarrow> int DuplicateGroup list" where
  "find_author_only_duplicates rt d author_exemptions ids author_fn sort_by_title =
     (case author_only_maps rt d ids author_fn of (candidates_map, author_bookids_map) \<Rightarrow>
        fst (author_convert_loop rt author_bookids_map
               (clean_dup_groups (sort_candidate_groups (shrink_candidates_map candidates_map) sort_by_title))
               author_exemptions ([], 0)))"

section \<open>find\_duplicates\<close>

text \<open>
  The search types whose candidate maps are built from the fields of \<open>db\<close>. The binary
  search reads the format files; its candidate map enters \<open>find_duplicates_from\<close> like
  the others. \<open>ids_opt\<close> is the argument \<^verbatim>\<open>book_ids\<close>, and \<open>None\<close> takes all ids of
  the library. The policy functions are passed in as the source's lookups return them.
  The title policy is one of the four names of the lookup table, so \<open>title_fn\<close> is a
  function; \<open>author_fn = None\<close> is the author policy \<^verbatim>\<open>ignore\<close> or a name that the
  lookup table does not hold: the title and author search then files by title alone, and the
  author-only search calls it for the first author it meets, which raises
  \<^verbatim>\<open>TypeError\<close>.
\<close>

datatype search_type = Title_author | Identifier | Author_only

datatype error = TypeError

definition find_duplicates ::
  "runtime \<Rightarrow> db \<Rightarrow> int exemptions \<Rightarrow> ustring exemptions \<Rightarrow> search_type \<Rightarrow>
   (ustring \<Rightarrow> ustring option \<Rightarrow> ustring) \<Rightarrow>
   (ustring \<Rightarrow> ustring \<times> ustring option) option \<Rightarrow> ustring \<Rightarrow> bool \<Rightarrow> bool \<Rightarrow>
   int list option \<Rightarrow> error + int DuplicateGroup list" where
  "find_duplicates rt d book_exemptions author_exemptions search title_fn author_fn
                   identifier_type include_languages sort_by_title ids_opt =
     (let ids = (case ids_opt of None \<Rightarrow> all_ids d | Some l \<Rightarrow> l)
      in case search of
           Identifier \<Rightarrow>
             Inr (find_duplicates_from (find_identifier_candidates d ids identifier_type)
                    sort_by_title book_exemptions)
         | Author_only \<Rightarrow>
             (case author_fn of
                None \<Rightarrow> if list_all (\<lambda>book_id. authors_to_list rt d book_id = []) ids
                        then Inr [] else Inl TypeError
              | Some f \<Rightarrow> Inr (find_author_only_duplicates rt d author_exemptions ids f sort_by_title))
         | Title_author \<Rightarrow>
             Inr (find_duplicates_from
                    (find_title_author_candidates rt d ids title_fn author_fn include_languages)
                    sort_by_title book_exemptions))"

section \<open>Sample runtime tables and libraries\<close>

text \<open>
  The values of the runtime's tables on the characters that the scenarios below use
  (CPython 3.11, Unicode 14): ASCII letters change case by 32; the whitespace characters are
  those of CPython's \<^verbatim>\<open>Py_UNICODE_ISSPACE\<close>; U+00E9 decomposes into U+0065 U+0301; the
  canonical combining classes of U+0301, U+1D165 and U+1D16D are 230, 216 and 226; U+0301
  and U+034F have general category Mn, U+1D165 and U+1D16D have Mc. Characters that no
  scenario uses are given no decomposition, class 0 and a category other than Mn. A list
  of strings of letters and spaces prints as its elements in single quotes, separated by
  a comma and a space, in square brackets.
\<close>

definition sample_runtime :: runtime where
  "sample_runtime = \<lparr>
     lower = map (\<lambda>c. if 65 \<le> c \<and> c \<le> 90 then c + 32 else c),
     upper = map (\<lambda>c. if 97 \<le> c \<and> c \<le> 122 then c - 32 else c),
     isspace = (\<lambda>c. c \<in> set [9, 10, 11, 12, 13, 28, 29, 30, 31, 32, 133, 160, 5760,
        8192, 8193, 8194, 8195, 8196, 8197, 8198, 8199, 8200, 8201, 8202,
        8232, 8233, 8239, 8287, 12288]),
     decomposition = (\<lambda>c. if c = 233 then [101, 769] else [c]),
     combining = (\<lambda>c. if c = 769 then 230 else if c = 119141 then 216
                       else if c = 119149 then 226 else 0),
     is_Mn = (\<lambda>c. c = 769 \<or> c = 847),
     str_list = (\<lambda>xs. ustr ''['' @ join (ustr '', '') (map (\<lambda>x. [39] @ x @ [39]) xs) @ ustr '']'')\<rparr>"

text \<open>The exemption map of scenario S6: the single symmetric exemption of 1 and 3.\<close>

definition exempt_1_3 :: "int exemptions" where
  "exempt_1_3 = add_exemption Map.empty 1 3"

text \<open>
  A library given by its rows \<open>(id, title, authors)\<close>; the authors are in the form in
  which \<^verbatim>\<open>db.authors\<close> returns them: names separated by commas, a comma inside a name
  written \<^verbatim>\<open>|\<close>. No book has a language or an identifier.
\<close>

definition library :: "(int \<times> ustring \<times> ustring) list \<Rightarrow> db" where
  "library rows = \<lparr>all_ids = map fst rows,
     title = (\<lambda>i. map_option fst (map_of rows i)),
     authors = (\<lambda>i. map_option snd (map_of rows i)),
     languages = (\<lambda>i. None),
     get_identifiers = (\<lambda>i t. None)\<rparr>"

text \<open>The libraries and candidate maps of the scenarios.\<close>

definition library_S5 :: "ustring \<Rightarrow> db" where
  "library_S5 t = library [(1, t, ustr ''Kevin J Anderson''), (2, t, ustr ''Anderson| Kevin J'')]"


definition library_two_pairs :: db where
  "library_two_pairs = library [(1, ustr ''Dune'', ustr ''Ann,Bob''), (2, ustr ''Dune'', ustr ''Ann,Bob''),
     (3, ustr ''Dune'', ustr ''Ann''), (4, ustr ''Dune'', ustr ''Bob'')]"

definition exempt_1_4 :: "int exemptions" where
  "exempt_1_4 = add_exemption Map.empty 1 4"

definition library_name_order :: db where
  "library_name_order = library [(1, ustr ''Dune'', ustr ''John Smith''), (2, ustr ''Emma'', ustr ''Smith| John'')]"

definition exempt_1_2 :: "int exemptions" where
  "exempt_1_2 = add_exemption Map.empty 1 2"

definition candidates_a :: "(ustring, int) candidates" where
  "candidates_a = [(ustr ''x'', {1, 2, 3, 6}), (ustr ''y'', {4, 5}), (ustr ''z'', {4})]"

definition candidates_b :: "(ustring, int) candidates" where
  "candidates_b = [(ustr ''z'', {4}), (ustr ''y'', {5, 4}), (ustr ''x'', {6, 3, 1, 2})]"

definition exempt_a :: "int exemptions" where
  "exempt_a = [1 \<mapsto> [2, 3], 2 \<mapsto> [1], 3 \<mapsto> [1]]"

definition exempt_b :: "int exemptions" where
  "exempt_b = [1 \<mapsto> [3, 2], 2 \<mapsto> [1], 3 \<mapsto> [1]]"

definition candidates_c :: "(ustring, int) candidates" where
  "candidates_c = [(ustr ''x'', {1, 2}), (ustr ''y'', {1, 2, 3}), (ustr ''z'', {4, 5})]"


section \<open>Auxiliary definitions of the proofs\<close>

text \<open>
  \<open>exempt_free E P rs\<close>: in every partition of \<open>rs\<close>, a member that lies in \<open>P\<close> (the ids
  already handled) has none of its exemptions beside it.
\<close>

definition exempt_free :: "'a::linorder exemptions \<Rightarrow> 'a set \<Rightarrow> 'a entry list \<Rightarrow> bool" where
  "exempt_free E P rs =
     (\<forall>r\<in>set rs. \<forall>e\<in>fst r. e \<in> P \<longrightarrow> fst r \<inter> set (merge_sets E e) \<subseteq> {e})"

text \<open>The letter test and the table lookup of the soundex loop.\<close>

definition is_AZ :: "int \<Rightarrow> bool" where
  "is_AZ c = (ord CHR ''A'' \<le> c \<and> c \<le> ord CHR ''Z'')"

definition digit_of :: "int \<Rightarrow> int" where
  "digit_of c = digits ! nat (c - ord CHR ''A'')"

text \<open>
  What one scan makes of one partition: the partition itself when it does not hold \<open>d\<close>,
  the cleaned partition when \<open>d\<close> is its pivot, the cleaned partition and its new siblings
  otherwise.
\<close>

definition step_entry :: "'a::linorder \<Rightarrow> 'a list \<Rightarrow> 'a entry \<Rightarrow> 'a entry list" where
  "step_entry d X e =
     (if d \<in> fst e then
        (if Some d = snd e then [(insert d (fst e - set X), snd e)]
         else (insert d (fst e - set X), snd e) # spawn d X (fst e))
      else [e])"

text \<open>
  Two exemption maps that hold the same sets, whatever the order in which the runtime
  iterates over each set; a Python set has no repeated element.
\<close>

definition same_exemptions :: "'a exemptions \<Rightarrow> 'a exemptions \<Rightarrow> bool" where
  "same_exemptions E E' =
     (\<forall>x. map_option set (E x) = map_option set (E' x)
          \<and> distinct (merge_sets E x) \<and> distinct (merge_sets E' x))"

text \<open>The id lists that \<open>convert_loop\<close> appends for one candidate set.\<close>

definition parts_of :: "'a::linorder exemptions \<Rightarrow> 'a set \<Rightarrow> 'a list list" where
  "parts_of E c = map sort (filter (\<lambda>p. length p > 1) (partition_using_exemptions (sorted_list_of_set c) E))"



section \<open>Properties of the exemption partitioner\<close>

text \<open>Every partition that a scan leaves is included in a partition it started from.\<close>

lemma scan_sub:
  "e \<in> set (scan d X acc todo) \<Longrightarrow> \<exists>e' \<in> set acc \<union> set todo. fst e \<subseteq> fst e'"
proof (induction d X acc todo rule: scan.induct)
  case (1 d X acc)
  then show ?case by auto
next
  case (2 d X acc res pid todo)
  show ?case
  proof (cases "d \<in> res")
    case False
    with 2 show ?thesis by (auto split: if_splits)
  next
    case True
    note mem = this
    show ?thesis
    proof (cases "Some d = pid")
      case True
      from 2(4) mem True
      have "e \<in> set (scan d X (acc @ [(insert d (res - set X), pid)]) todo)"
        by simp
      from 2(1)[OF mem True this]
      obtain e' where e': "e' \<in> set (acc @ [(insert d (res - set X), pid)]) \<union> set todo"
        and sub: "fst e \<subseteq> fst e'" by blast
      have "fst e' \<subseteq> res \<or> e' \<in> set acc \<union> set todo"
        using e' mem by auto
      with sub show ?thesis by fastforce
    next
      case False
      from 2(4) mem False
      have "e \<in> set (scan d X (acc @ [(insert d (res - set X), pid)]) (todo @ spawn d X res))"
        by simp
      from 2(2)[OF mem False this]
      obtain e' where e': "e' \<in> set (acc @ [(insert d (res - set X), pid)]) \<union> set (todo @ spawn d X res)"
        and sub: "fst e \<subseteq> fst e'" by blast
      have "fst e' \<subseteq> res \<or> e' \<in> set acc \<union> set todo"
        using e' mem by (auto simp: spawn_def)
      with sub show ?thesis by fastforce
    qed
  qed
qed

text \<open>After the scan for \<open>d\<close>, a partition that holds \<open>d\<close> holds none of its exemptions.\<close>

lemma scan_clean:
  "\<forall>e\<in>set acc. d \<in> fst e \<longrightarrow> fst e \<inter> set X \<subseteq> {d} \<Longrightarrow>
   \<forall>e\<in>set (scan d X acc todo). d \<in> fst e \<longrightarrow> fst e \<inter> set X \<subseteq> {d}"
proof (induction d X acc todo rule: scan.induct)
  case (1 d X acc)
  then show ?case by simp
next
  case (2 d X acc res pid todo)
  show ?case
  proof (cases "d \<in> res")
    case False
    have "\<forall>e\<in>set (acc @ [(res, pid)]). d \<in> fst e \<longrightarrow> fst e \<inter> set X \<subseteq> {d}"
      using 2(4) False by auto
    from 2(3)[OF False this] False show ?thesis by simp
  next
    case True
    note mem = this
    have acc': "\<forall>e\<in>set (acc @ [(insert d (res - set X), pid)]). d \<in> fst e \<longrightarrow> fst e \<inter> set X \<subseteq> {d}"
      using 2(4) by auto
    show ?thesis
    proof (cases "Some d = pid")
      case True
      from 2(1)[OF mem True acc'] mem True show ?thesis by simp
    next
      case False
      from 2(2)[OF mem False acc'] mem False show ?thesis by simp
    qed
  qed
qed

lemma run_sub:
  "e \<in> set (run E ds rs) \<Longrightarrow> \<exists>e' \<in> set rs. fst e \<subseteq> fst e'"
proof (induction ds arbitrary: rs)
  case Nil
  then show ?case by auto
next
  case (Cons d ds)
  from Cons.IH[OF Cons.prems[simplified]]
  obtain e1 where e1: "e1 \<in> set (if contains E d then scan d (merge_sets E d) [] rs else rs)"
    and s1: "fst e \<subseteq> fst e1" by blast
  show ?case
  proof (cases "contains E d")
    case True
    with e1 have "e1 \<in> set (scan d (merge_sets E d) [] rs)" by simp
    from scan_sub[OF this] obtain e' where "e' \<in> set rs" "fst e1 \<subseteq> fst e'" by auto
    with s1 show ?thesis by blast
  next
    case False
    with e1 s1 show ?thesis by auto
  qed
qed

lemma exempt_free_step:
  assumes "exempt_free E P rs"
  shows "exempt_free E (insert d P) (if contains E d then scan d (merge_sets E d) [] rs else rs)"
proof (cases "contains E d")
  case False
  then have "merge_sets E d = []" by (simp add: contains_def merge_sets_def)
  with assms False show ?thesis by (auto simp: exempt_free_def)
next
  case True
  let ?rs = "scan d (merge_sets E d) [] rs"
  have cl: "\<forall>e\<in>set ?rs. d \<in> fst e \<longrightarrow> fst e \<inter> set (merge_sets E d) \<subseteq> {d}"
    by (rule scan_clean) simp
  have "exempt_free E (insert d P) ?rs"
    unfolding exempt_free_def
  proof (intro ballI impI)
    fix r e assume r: "r \<in> set ?rs" and e: "e \<in> fst r" and eP: "e \<in> insert d P"
    show "fst r \<inter> set (merge_sets E e) \<subseteq> {e}"
    proof (cases "e = d")
      case True
      with cl r e show ?thesis by blast
    next
      case False
      with eP have "e \<in> P" by simp
      from scan_sub[OF r] obtain r' where r': "r' \<in> set rs" and sub: "fst r \<subseteq> fst r'" by auto
      from assms r' sub e \<open>e \<in> P\<close> have "fst r' \<inter> set (merge_sets E e) \<subseteq> {e}"
        unfolding exempt_free_def by blast
      with sub show ?thesis by blast
    qed
  qed
  with True show ?thesis by simp
qed

lemma run_exempt_free: "exempt_free E P rs \<Longrightarrow> exempt_free E (P \<union> set ds) (run E ds rs)"
proof (induction ds arbitrary: P rs)
  case Nil
  then show ?case by simp
next
  case (Cons d ds)
  from Cons.IH[OF exempt_free_step[OF Cons.prems, of d]] show ?case by simp
qed

lemma partition_groups:
  assumes "g \<in> set (partition_using_exemptions D E)"
  shows "\<exists>r. r \<in> set (run E (sort D) [(set D, None)]) \<and> set g = fst r \<and> fst r \<subseteq> set D
      \<and> g = sorted_list_of_set (fst r) \<and> card (fst r) > 1"
proof -
  from assms obtain r where r: "r \<in> set (run E (sort D) [(set (sort D), None)])"
    and g: "g = sorted_list_of_set (fst r)" and c: "card (fst r) > 1"
    by (auto simp: partition_using_exemptions_def Let_def)
  from run_sub[OF r] have sub: "fst r \<subseteq> set D" by auto
  then have "finite (fst r)" by (rule finite_subset) simp
  with g have "set g = fst r" by simp
  with r sub g c show ?thesis by (intro exI[of _ r]) simp
qed

lemma partition_subset: "g \<in> set (partition_using_exemptions D E) \<Longrightarrow> set g \<subseteq> set D"
  using partition_groups by blast

lemma partition_safe:
  assumes "g \<in> set (partition_using_exemptions D E)"
    and "x \<in> set g" and "y \<in> set g" and "x \<noteq> y"
  shows "y \<notin> set (merge_sets E x)"
proof -
  from partition_groups[OF assms(1)] obtain r
    where r: "r \<in> set (run E (sort D) [(set D, None)])" and g: "set g = fst r" and sub: "fst r \<subseteq> set D"
    by blast
  have "exempt_free E ({} \<union> set (sort D)) (run E (sort D) [(set D, None)])"
    by (rule run_exempt_free) (simp add: exempt_free_def)
  moreover have "x \<in> fst r" "x \<in> {} \<union> set (sort D)"
    using sub assms(2) g by auto
  ultimately have "fst r \<inter> set (merge_sets E x) \<subseteq> {x}"
    unfolding exempt_free_def using r by blast
  with assms(3,4) g show ?thesis by auto
qed

lemma partition_1_2_3: "partition_using_exemptions [1, 2, 3] exempt_1_3 = [[1, 2], [2, 3]]"
  unfolding exempt_1_3_def by code_simp

section \<open>Soundex\<close>

lemma remdups_adj_snoc:
  "remdups_adj (xs @ [d]) = (if xs \<noteq> [] \<and> last xs = d then remdups_adj xs else remdups_adj xs @ [d])"
  by (induction xs rule: remdups_adj.induct) auto

lemma soundex_step_letter:
  "is_AZ c \<Longrightarrow> soundex_step (remdups_adj xs, fc) c =
     (remdups_adj (xs @ [digit_of c]), if fc = [] then [c] else fc)"
  by (auto simp add: soundex_step_def is_AZ_def digit_of_def remdups_adj_snoc Let_def)

lemma soundex_step_other: "\<not> is_AZ c \<Longrightarrow> soundex_step st c = st"
  by (cases st) (auto simp add: soundex_step_def is_AZ_def)

text \<open>
  The loop, started with the digits collected so far: it collects the digits of the letters
  with adjacent repetitions removed, and remembers the first letter.
\<close>

lemma soundex_loop:
  "foldl soundex_step (remdups_adj xs, fc) cs =
     (remdups_adj (xs @ map digit_of (filter is_AZ cs)),
      if fc = [] then take 1 (filter is_AZ cs) else fc)"
proof (induction cs arbitrary: xs fc)
  case Nil
  then show ?case by simp
next
  case (Cons c cs)
  show ?case
  proof (cases "is_AZ c")
    case True
    then show ?thesis
      using Cons.IH[of "xs @ [digit_of c]" "if fc = [] then [c] else fc"]
      by (simp add: soundex_step_letter)
  next
    case False
    then show ?thesis using Cons.IH[of xs fc] by (simp add: soundex_step_other)
  qed
qed

lemma soundex_robert: "soundex sample_runtime (ustr ''Robert'') 6 = ustr ''R16300''"
  by (simp add: soundex_def soundex_step_def digits_def slice_to_def sample_runtime_def numeral_2_eq_2)

section \<open>Independence of iteration and insertion order\<close>

lemma concat_map_singleton: "(\<And>e. e \<in> set xs \<Longrightarrow> f e = [e]) \<Longrightarrow> concat (map f xs) = xs"
  by (induction xs) simp_all

lemma step_entry_spawn: "concat (map (step_entry d X) (spawn d X res)) = spawn d X res"
  by (rule concat_map_singleton) (auto simp: step_entry_def dest: spawn_not_mem)

lemma step_entry_out: "d \<notin> res \<Longrightarrow> step_entry d X (res, pid) = [(res, pid)]"
  by (simp add: step_entry_def)

lemma step_entry_pivot:
  "d \<in> res \<Longrightarrow> Some d = pid \<Longrightarrow> step_entry d X (res, pid) = [(insert d (res - set X), pid)]"
  by (simp add: step_entry_def)

lemma step_entry_split:
  "d \<in> res \<Longrightarrow> Some d \<noteq> pid \<Longrightarrow>
   step_entry d X (res, pid) = (insert d (res - set X), pid) # spawn d X res"
  by (simp add: step_entry_def)

lemma scan_mset:
  "mset (scan d X acc todo) = mset acc + mset (concat (map (step_entry d X) todo))"
proof (induction d X acc todo rule: scan.induct)
  case (1 d X acc)
  then show ?case by simp
next
  case (2 d X acc res pid todo)
  show ?case
  proof (cases "d \<in> res")
    case False
    with 2(3)[OF False] show ?thesis by (simp add: step_entry_out)
  next
    case True
    note mem = this
    show ?thesis
    proof (cases "Some d = pid")
      case True
      with 2(1)[OF mem True] mem show ?thesis by (simp add: step_entry_pivot)
    next
      case False
      with 2(2)[OF mem False] mem show ?thesis
        by (simp add: step_entry_split step_entry_spawn)
    qed
  qed
qed

lemma spawn_mset_cong:
  assumes "set X = set X'" "distinct X" "distinct X'"
  shows "mset (spawn d X res) = mset (spawn d X' res)"
proof -
  from assms have "mset X = mset X'" by (simp add: set_eq_iff_mset_eq_distinct)
  then have "mset (filter (\<lambda>nd. nd > d \<and> nd \<in> res) X) = mset (filter (\<lambda>nd. nd > d \<and> nd \<in> res) X')"
    by simp
  then have "image_mset (\<lambda>nd. (insert nd (res - set X - {d}), Some nd)) (mset (filter (\<lambda>nd. nd > d \<and> nd \<in> res) X))
     = image_mset (\<lambda>nd. (insert nd (res - set X - {d}), Some nd)) (mset (filter (\<lambda>nd. nd > d \<and> nd \<in> res) X'))"
    by (rule arg_cong)
  with assms(1) show ?thesis unfolding spawn_def mset_map by simp
qed

lemma step_entry_mset_cong:
  assumes "set X = set X'" "distinct X" "distinct X'"
  shows "mset (step_entry d X e) = mset (step_entry d X' e)"
  using spawn_mset_cong[OF assms, of d "fst e"] assms(1) by (simp add: step_entry_def)

lemma concat_step_mset_cong:
  assumes "set X = set X'" "distinct X" "distinct X'"
  shows "mset (concat (map (step_entry d X) rs)) = mset (concat (map (step_entry d X') rs))"
  by (induction rs) (simp_all add: step_entry_mset_cong[OF assms])

lemma concat_map_mset_perm:
  "mset rs = mset rs' \<Longrightarrow> mset (concat (map f rs)) = mset (concat (map f rs'))"
proof -
  assume "mset rs = mset rs'"
  then have "image_mset (\<lambda>e. mset (f e)) (mset rs) = image_mset (\<lambda>e. mset (f e)) (mset rs')"
    by simp
  then have "mset (map (\<lambda>e. mset (f e)) rs) = mset (map (\<lambda>e. mset (f e)) rs')" by simp
  then have "sum_mset (mset (map (\<lambda>e. mset (f e)) rs)) = sum_mset (mset (map (\<lambda>e. mset (f e)) rs'))"
    by simp
  moreover have "\<And>xs. mset (concat (map f xs)) = sum_mset (mset (map (\<lambda>e. mset (f e)) xs))"
    by (induct_tac xs) simp_all
  ultimately show ?thesis by simp
qed

lemma scan_mset_cong:
  assumes "set X = set X'" "distinct X" "distinct X'" "mset rs = mset rs'"
  shows "mset (scan d X [] rs) = mset (scan d X' [] rs')"
  using concat_step_mset_cong[OF assms(1-3), of d rs] concat_map_mset_perm[OF assms(4), of "step_entry d X'"]
  by (simp add: scan_mset)

lemma same_exemptions_sets:
  assumes "same_exemptions E E'"
  shows "contains E d = contains E' d" "set (merge_sets E d) = set (merge_sets E' d)"
    "distinct (merge_sets E d)" "distinct (merge_sets E' d)"
proof -
  from assms have m: "map_option set (E d) = map_option set (E' d)"
    and d: "distinct (merge_sets E d)" "distinct (merge_sets E' d)"
    by (auto simp: same_exemptions_def)
  from m show "contains E d = contains E' d"
    by (cases "E d"; cases "E' d") (auto simp: contains_def)
  from m show "set (merge_sets E d) = set (merge_sets E' d)"
    by (cases "E d"; cases "E' d") (auto simp: merge_sets_def)
  from d show "distinct (merge_sets E d)" "distinct (merge_sets E' d)" by auto
qed

lemma run_mset_cong:
  assumes "same_exemptions E E'"
  shows "mset rs = mset rs' \<Longrightarrow> mset (run E ds rs) = mset (run E' ds rs')"
proof (induction ds arbitrary: rs rs')
  case Nil
  then show ?case by simp
next
  case (Cons d ds)
  note s = same_exemptions_sets[OF assms, of d]
  have "mset (if contains E d then scan d (merge_sets E d) [] rs else rs)
      = mset (if contains E' d then scan d (merge_sets E' d) [] rs' else rs')"
    using s(1) scan_mset_cong[OF s(2,3,4) Cons.prems, of d] Cons.prems by simp
  from Cons.IH[OF this] show ?case by simp
qed

lemma sort_mset_cong: "mset xs = mset ys \<Longrightarrow> sort xs = sort ys"
  by (rule properties_for_sort) simp_all

lemma partition_same_exemptions:
  assumes "same_exemptions E E'"
  shows "partition_using_exemptions D E = partition_using_exemptions D E'"
proof -
  let ?f = "\<lambda>rs. map sorted_list_of_set (filter (\<lambda>r. card r > 1) (map fst rs))"
  have "mset (run E (sort D) [(set (sort D), None)]) = mset (run E' (sort D) [(set (sort D), None)])"
    by (rule run_mset_cong[OF assms]) simp
  then have "mset (?f (run E (sort D) [(set (sort D), None)])) = mset (?f (run E' (sort D) [(set (sort D), None)]))"
    by (simp only: mset_map mset_filter)
  then show ?thesis
    unfolding partition_using_exemptions_def Let_def by (rule sort_mset_cong)
qed

lemma convert_loop_cong:
  "(\<And>D. partition_using_exemptions D E = partition_using_exemptions D E') \<Longrightarrow>
   convert_loop cs E st = convert_loop cs E' st"
  by (induction cs arbitrary: st) simp_all

lemma author_convert_loop_cong:
  "(\<And>D. partition_using_exemptions D E = partition_using_exemptions D E') \<Longrightarrow>
   author_convert_loop rt abm cs E st = author_convert_loop rt abm cs E' st"
  by (induction cs arbitrary: st) simp_all

lemma shrink_set: "set (shrink_candidates_map cm) = {kv \<in> set cm. \<not> card (snd kv) < 2}"
  by (auto simp: shrink_candidates_map_def)

lemma shrink_distinct: "distinct (map fst cm) \<Longrightarrow> distinct (map fst (shrink_candidates_map cm))"
  by (simp add: shrink_candidates_map_def distinct_map_filter)

lemma sort_candidate_groups_cong:
  assumes "distinct (map fst m)" "distinct (map fst m')" "set m = set m'"
  shows "sort_candidate_groups m b = sort_candidate_groups m' b"
proof -
  from assms have mo: "map_of m = map_of m'" by (simp add: map_of_inject_set)
  then have lk: "lookup m = lookup m'" by (simp add: lookup_def fun_eq_iff)
  have "set (map fst m) = set (map fst m')" using assms(3) by simp
  with assms(1,2) have ms: "mset (map fst m) = mset (map fst m')"
    by (simp only: set_eq_iff_mset_eq_distinct)
  then have 1: "sort (map fst m) = sort (map fst m')" by (rule sort_mset_cong)
  let ?f = "\<lambda>k. (card (lookup m' k), k)"
  have inj: "inj_on ?f (set (rev (map fst m)))" by (auto simp: inj_on_def)
  have "mset (rev (map fst m)) = mset (sort_key ?f (rev (map fst m')))"
    using ms by simp
  from sort_key_inj_key_eq[OF this inj] 
  have 2: "sort_key ?f (rev (map fst m)) = sort_key ?f (rev (map fst m'))" by simp
  show ?thesis unfolding sort_candidate_groups_def lk using 1 2 by simp
qed


section \<open>The groups that the orchestrator returns\<close>

lemma add_partitions_ids:
  "map book_ids (fst (add_partitions ps (gs, n))) =
     map book_ids gs @ map sort (filter (\<lambda>p. length p > 1) ps)"
  by (induction ps arbitrary: gs n) simp_all

lemma add_partitions_snd:
  "snd (add_partitions ps (gs, n)) = n + length (filter (\<lambda>p. length p > 1) ps)"
  by (induction ps arbitrary: gs n) simp_all

lemma convert_loop_ids:
  "map book_ids (fst (convert_loop cs E st)) =
     map book_ids (fst st) @ concat (map (parts_of E) cs)"
proof (induction cs arbitrary: st)
  case Nil
  then show ?case by simp
next
  case (Cons c cs)
  obtain gs n where st: "st = (gs, n)" by (cases st)
  obtain gs' n' where ap: "add_partitions (partition_using_exemptions (sorted_list_of_set c) E) (gs, n) = (gs', n')"
    by (cases "add_partitions (partition_using_exemptions (sorted_list_of_set c) E) (gs, n)")
  have "map book_ids gs' = map book_ids gs @ parts_of E c"
    using add_partitions_ids[of "partition_using_exemptions (sorted_list_of_set c) E" gs n]
    by (simp add: ap parts_of_def)
  then show ?case
    using Cons.IH[of "(gs', n')"] by (simp add: st ap)
qed

lemma convert_to_groups_ids:
  "map book_ids (convert_to_groups cm E) = concat (map (parts_of E) (clean_dup_groups cm))"
  by (simp add: convert_to_groups_def convert_loop_ids)

lemma partition_sorted: "p \<in> set (partition_using_exemptions D E) \<Longrightarrow> sort p = p"
proof -
  assume "p \<in> set (partition_using_exemptions D E)"
  from partition_groups[OF this] obtain r
    where "r \<in> set (run E (sort D) [(set D, None)])" and "p = sorted_list_of_set (fst r)"
    by blast
  then have "sorted p" by (simp only: sorted_list_of_set.sorted_sorted_key_list_of_set)
  then show ?thesis by (rule sorted_sort_id)
qed

lemma parts_of_mem:
  assumes "p \<in> set (parts_of E c)"
  shows "p \<in> set (partition_using_exemptions (sorted_list_of_set c) E)"
proof -
  from assms obtain q where q: "q \<in> set (partition_using_exemptions (sorted_list_of_set c) E)"
    and "p = sort q" by (auto simp: parts_of_def)
  with partition_sorted[OF q] show ?thesis by simp
qed

lemma group_origin:
  assumes "G \<in> set (convert_to_groups cm E)"
  shows "\<exists>c \<in> set (clean_dup_groups cm).
           book_ids G \<in> set (partition_using_exemptions (sorted_list_of_set c) E)"
proof -
  from assms have "book_ids G \<in> set (map book_ids (convert_to_groups cm E))" by simp
  then obtain c where "c \<in> set (clean_dup_groups cm)" "book_ids G \<in> set (parts_of E c)"
    unfolding convert_to_groups_ids by auto
  then show ?thesis using parts_of_mem by blast
qed

lemma remove_subsets_subset: "set (remove_subsets xs) \<subseteq> set xs"
  by (induction xs) auto

lemma clean_dup_groups_subset: "set (clean_dup_groups cm) \<subseteq> snd ` set cm"
  using remove_subsets_subset[of "sort_key card (map snd cm)"]
  by (auto simp: clean_dup_groups_def)

lemma lookup_mem: "k \<in> fst ` set cm \<Longrightarrow> (k, lookup cm k) \<in> set cm"
proof -
  assume "k \<in> fst ` set cm"
  then have "map_of cm k \<noteq> None" by (simp add: map_of_eq_None_iff)
  then obtain v where v: "map_of cm k = Some v" by blast
  then have "(k, v) \<in> set cm" by (rule map_of_SomeD)
  with v show ?thesis by (simp add: lookup_def)
qed

lemma sort_candidate_groups_subset: "set (sort_candidate_groups cm b) \<subseteq> set cm"
proof
  fix kv assume "kv \<in> set (sort_candidate_groups cm b)"
  then obtain k where kv: "kv = (k, lookup cm k)" and k: "k \<in> set (map fst cm)"
    by (cases b) (auto simp: sort_candidate_groups_def Let_def)
  from k have "k \<in> fst ` set cm" by simp
  from lookup_mem[OF this] kv show "kv \<in> set cm" by simp
qed

lemma shrink_subset: "set (shrink_candidates_map cm) \<subseteq> set cm"
  by (auto simp: shrink_candidates_map_def)

lemma find_duplicates_from_origin:
  assumes "G \<in> set (find_duplicates_from cm sbt E)"
  shows "\<exists>c \<in> snd ` set (shrink_candidates_map cm).
           book_ids G \<in> set (partition_using_exemptions (sorted_list_of_set c) E)"
proof -
  from group_origin[OF assms[unfolded find_duplicates_from_def]]
  obtain c where c: "c \<in> set (clean_dup_groups (sort_candidate_groups (shrink_candidates_map cm) sbt))"
    and p: "book_ids G \<in> set (partition_using_exemptions (sorted_list_of_set c) E)" by blast
  have "snd ` set (sort_candidate_groups (shrink_candidates_map cm) sbt)
        \<subseteq> snd ` set (shrink_candidates_map cm)"
    using sort_candidate_groups_subset[of "shrink_candidates_map cm" sbt] by (rule image_mono)
  with c clean_dup_groups_subset[of "sort_candidate_groups (shrink_candidates_map cm) sbt"]
  have "c \<in> snd ` set (shrink_candidates_map cm)" by (meson subsetD)
  with p show ?thesis by blast
qed

lemma find_duplicates_from_safe:
  assumes "G \<in> set (find_duplicates_from cm sbt E)"
    and "x \<in> set (book_ids G)" "y \<in> set (book_ids G)" "x \<noteq> y"
  shows "y \<notin> set (merge_sets E x)"
proof -
  from find_duplicates_from_origin[OF assms(1)] obtain c where
    "book_ids G \<in> set (partition_using_exemptions (sorted_list_of_set c) E)" by blast
  from partition_safe[OF this assms(2-4)] show ?thesis .
qed

lemma remove_subsets_antichain:
  assumes "sorted (map card xs)" "\<forall>a\<in>set xs. finite a"
    and "A \<in> set (remove_subsets xs)" "B \<in> set (remove_subsets xs)"
  shows "\<not> A \<subset> B"
  using assms
proof (induction xs)
  case Nil
  then show ?case by simp
next
  case (Cons a xs)
  have srt: "sorted (map card xs)" and fin: "\<forall>a\<in>set xs. finite a"
    and le: "\<forall>b\<in>set xs. card a \<le> card b"
    using Cons.prems(1,2) by auto
  show ?case
  proof (cases "list_ex (\<lambda>b. a \<subseteq> b) xs")
    case True
    with Cons.prems(3,4) Cons.IH[OF srt fin] show ?thesis by simp
  next
    case False
    then have no: "\<forall>b\<in>set xs. \<not> a \<subseteq> b" by (simp add: list_ex_iff)
    from False Cons.prems(3,4)
    have AB: "A = a \<or> A \<in> set (remove_subsets xs)" "B = a \<or> B \<in> set (remove_subsets xs)"
      by auto
    show ?thesis
    proof (cases "A = a")
      case True
      show ?thesis
      proof (cases "B = a")
        case True
        with \<open>A = a\<close> show ?thesis by simp
      next
        case False
        with AB(2) have "B \<in> set xs" using remove_subsets_subset by blast
        with no True show ?thesis by auto
      qed
    next
      case False
      with AB(1) have A: "A \<in> set (remove_subsets xs)" by simp
      show ?thesis
      proof (cases "B = a")
        case True
        from A have Ax: "A \<in> set xs" using remove_subsets_subset by blast
        with le have "card a \<le> card A" by simp
        moreover have "finite a" using Cons.prems(2) by simp
        ultimately show ?thesis using True psubset_card_mono[of a A] by auto
      next
        case False
        with AB(2) A Cons.IH[OF srt fin] show ?thesis by simp
      qed
    qed
  qed
qed

lemma clean_dup_groups_antichain:
  assumes "\<forall>kv\<in>set cm. finite (snd kv)"
    and "A \<in> set (clean_dup_groups cm)" "B \<in> set (clean_dup_groups cm)"
  shows "\<not> A \<subset> B"
proof -
  have "sorted (map card (sort_key card (map snd cm)))" by (rule sorted_sort_key)
  moreover have "\<forall>a\<in>set (sort_key card (map snd cm)). finite a" using assms(1) by auto
  ultimately show ?thesis
    using assms(2,3) unfolding clean_dup_groups_def by (rule remove_subsets_antichain)
qed

lemma run_empty: "run Map.empty ds rs = rs"
  by (induction ds arbitrary: rs) (simp_all add: contains_def)

lemma partition_empty:
  "partition_using_exemptions D Map.empty =
     (if card (set D) > 1 then [sorted_list_of_set (set D)] else [])"
  by (simp add: partition_using_exemptions_def run_empty Let_def)

lemma parts_of_empty:
  "finite c \<Longrightarrow> p \<in> set (parts_of Map.empty c) \<Longrightarrow> set p = c"
  by (auto simp: parts_of_def partition_empty split: if_splits)

lemma groups_empty_origin:
  assumes "\<forall>kv\<in>set cm. finite (snd kv)" "G \<in> set (convert_to_groups cm Map.empty)"
  shows "set (book_ids G) \<in> set (clean_dup_groups cm)"
proof -
  from assms(2) have "book_ids G \<in> set (map book_ids (convert_to_groups cm Map.empty))" by simp
  then obtain c where c: "c \<in> set (clean_dup_groups cm)" "book_ids G \<in> set (parts_of Map.empty c)"
    unfolding convert_to_groups_ids by auto
  from c(1) clean_dup_groups_subset[of cm] have "c \<in> snd ` set cm" by blast
  with assms(1) have "finite c" by auto
  from parts_of_empty[OF this c(2)] c(1) show ?thesis by simp
qed

lemma find_duplicates_from_antichain:
  assumes "\<forall>kv\<in>set cm. finite (snd kv)"
    and "G \<in> set (find_duplicates_from cm sbt Map.empty)" "H \<in> set (find_duplicates_from cm sbt Map.empty)"
  shows "\<not> set (book_ids G) \<subset> set (book_ids H)"
proof -
  let ?m = "sort_candidate_groups (shrink_candidates_map cm) sbt"
  have "set ?m \<subseteq> set cm"
    using sort_candidate_groups_subset[of "shrink_candidates_map cm" sbt] shrink_subset[of cm]
    by (rule subset_trans)
  with assms(1) have fin: "\<forall>kv\<in>set ?m. finite (snd kv)" by (meson subsetD)
  from groups_empty_origin[OF fin] assms(2,3)
  have "set (book_ids G) \<in> set (clean_dup_groups ?m)" "set (book_ids H) \<in> set (clean_dup_groups ?m)"
    by (simp_all add: find_duplicates_from_def)
  from clean_dup_groups_antichain[OF fin this] show ?thesis .
qed


lemma find_duplicates_origin:
  assumes "search \<noteq> Author_only"
    and "find_duplicates rt d BE AE search tf af it il sbt ids = Inr gs"
  shows "\<exists>cm :: (ustring, int) candidates. gs = find_duplicates_from cm sbt BE"
proof (cases search)
  case Title_author
  with assms(2) show ?thesis by (simp add: find_duplicates_def Let_def) blast
next
  case Identifier
  with assms(2) show ?thesis by (simp add: find_duplicates_def Let_def) blast
next
  case Author_only
  with assms(1) show ?thesis by simp
qed

lemma find_duplicates_from_exempt_cong:
  "same_exemptions E E' \<Longrightarrow> find_duplicates_from cm sbt E = find_duplicates_from cm sbt E'"
  using convert_loop_cong[OF partition_same_exemptions, of E E']
  by (simp add: find_duplicates_from_def convert_to_groups_def)

lemma find_author_only_exempt_cong:
  "same_exemptions E E' \<Longrightarrow>
   find_author_only_duplicates rt d E ids f sbt = find_author_only_duplicates rt d E' ids f sbt"
  using author_convert_loop_cong[OF partition_same_exemptions, of E E']
  by (simp add: find_author_only_duplicates_def split: prod.splits)

lemma find_duplicates_from_order_independent:
  assumes "distinct (map fst cm)" "distinct (map fst cm')" "set cm = set cm'"
    and "same_exemptions E E'"
  shows "find_duplicates_from cm sbt E = find_duplicates_from cm' sbt E'"
proof -
  have "sort_candidate_groups (shrink_candidates_map cm) sbt = sort_candidate_groups (shrink_candidates_map cm') sbt"
    by (rule sort_candidate_groups_cong) (simp_all add: shrink_distinct assms shrink_set)
  moreover have "\<And>cs st. convert_loop cs E st = convert_loop cs E' st"
    by (rule convert_loop_cong) (rule partition_same_exemptions[OF assms(4)])
  ultimately show ?thesis
    by (simp add: find_duplicates_from_def convert_to_groups_def)
qed


section \<open>The identifier grouper files every book under one key\<close>









section \<open>Unicode folding\<close>

lemma set_reorder_insert: "set (reorder_insert ccc c xs) = insert c (set xs)"
  by (induction xs) auto

lemma set_canonical_order: "set (canonical_order ccc s) = set s"
  by (induction s) (simp_all add: canonical_order_def set_reorder_insert)

lemma reorder_insert_starter: "\<forall>x\<in>set xs. ccc x = 0 \<Longrightarrow> reorder_insert ccc c xs = c # xs"
  by (cases xs) simp_all

lemma canonical_order_starters: "\<forall>x\<in>set s. ccc x = 0 \<Longrightarrow> canonical_order ccc s = s"
proof (induction s)
  case Nil
  then show ?case by (simp add: canonical_order_def)
next
  case (Cons c s)
  then have "canonical_order ccc s = s" by simp
  then have "canonical_order ccc (c # s) = reorder_insert ccc c s"
    by (simp add: canonical_order_def)
  with Cons.prems show ?case by (simp add: reorder_insert_starter)
qed

lemma concat_map_fixed: "\<forall>x\<in>set xs. f x = [x] \<Longrightarrow> concat (map f xs) = xs"
  by (induction xs) simp_all

lemma normalize_NFD_chars:
  "c \<in> set (normalize_NFD rt s) \<Longrightarrow> \<exists>c0\<in>set s. c \<in> set (decomposition rt c0)"
  by (auto simp: normalize_NFD_def set_canonical_order)

section \<open>Scenario evaluations\<close>


lemma two_pairs_groups:
  "find_duplicates sample_runtime library_two_pairs exempt_1_4 Map.empty Title_author
     (identical_title_match sample_runtime) (Some (identical_authors_match sample_runtime))
     (ustr ''isbn'') False True None
   = Inr [\<lparr>group_id = 1, book_ids = [1, 2, 3], match_key = []\<rparr>,
          \<lparr>group_id = 2, book_ids = [1, 2], match_key = []\<rparr>,
          \<lparr>group_id = 3, book_ids = [2, 4], match_key = []\<rparr>]"
  unfolding exempt_1_4_def by code_simp

lemma name_order_groups:
  "find_duplicates sample_runtime library_name_order exempt_1_2 Map.empty Author_only
     (identical_title_match sample_runtime) (Some (similar_authors_match sample_runtime))
     (ustr ''isbn'') False True None
   = Inr [\<lparr>group_id = 1, book_ids = [1, 2],
           match_key = ustr ''['' @ [39] @ ustr ''John Smith'' @ [39] @ ustr '', '' @ [39]
                       @ ustr ''Smith, John'' @ [39] @ ustr '']''\<rparr>]"
  unfolding exempt_1_2_def by code_simp

lemma exempt_1_2_holds: "merge_sets exempt_1_2 1 = [2]" "merge_sets exempt_1_2 2 = [1]"
  unfolding exempt_1_2_def by code_simp+

lemma exempt_1_4_holds: "merge_sets exempt_1_4 1 = [4]" "merge_sets exempt_1_4 4 = [1]"
  unfolding exempt_1_4_def by code_simp+

lemma candidates_a_groups:
  "find_duplicates_from candidates_a True exempt_a
   = [\<lparr>group_id = 1, book_ids = [4, 5], match_key = []\<rparr>,
      \<lparr>group_id = 2, book_ids = [1, 6], match_key = []\<rparr>,
      \<lparr>group_id = 3, book_ids = [2, 6], match_key = []\<rparr>,
      \<lparr>group_id = 4, book_ids = [3, 6], match_key = []\<rparr>]"
  unfolding candidates_a_def exempt_a_def by code_simp

lemma candidates_a_partition:
  "partition_using_exemptions (sorted_list_of_set {1, 2, 3, 6}) exempt_a = [[1, 6], [2, 6], [3, 6]]"
  unfolding exempt_a_def by code_simp

lemma S5_author_keys:
  "similar_authors_match sample_runtime (ustr ''Kevin J Anderson'')
     = (ustr ''kevin anderson'', Some (ustr ''anderson kevin''))"
  "similar_authors_match sample_runtime (ustr ''Anderson, Kevin J'')
     = (ustr ''kevin anderson'', Some (ustr ''anderson kevin''))"
  by code_simp+

lemma S5_authors:
  "authors_to_list sample_runtime (library_S5 t) 1 = [ustr ''Kevin J Anderson'']"
  "authors_to_list sample_runtime (library_S5 t) 2 = [ustr ''Anderson, Kevin J'']"
  unfolding library_S5_def by code_simp+

lemma candidates_c_clean: "clean_dup_groups candidates_c = [{4, 5}, {1, 2, 3}]"
  unfolding candidates_c_def by code_simp

lemma candidates_c_groups:
  "find_duplicates_from candidates_c True Map.empty
   = [\<lparr>group_id = 1, book_ids = [4, 5], match_key = []\<rparr>,
      \<lparr>group_id = 2, book_ids = [1, 2, 3], match_key = []\<rparr>]"
  unfolding candidates_c_def by code_simp

lemma candidates_b_groups:
  "find_duplicates_from candidates_b True exempt_b
   = [\<lparr>group_id = 1, book_ids = [4, 5], match_key = []\<rparr>,
      \<lparr>group_id = 2, book_ids = [1, 6], match_key = []\<rparr>,
      \<lparr>group_id = 3, book_ids = [2, 6], match_key = []\<rparr>,
      \<lparr>group_id = 4, book_ids = [3, 6], match_key = []\<rparr>]"
  unfolding candidates_b_def exempt_b_def by code_simp

lemma pair_of_equal_candidates:
  assumes "k1 \<noteq> k2" and "finite S" and "2 \<le> card S"
  shows "find_duplicates_from [(k1, S), (k2, S)] sbt Map.empty
         = [\<lparr>group_id = 1, book_ids = sorted_list_of_set S, match_key = []\<rparr>]"
proof -
  let ?m = "[(k1, S), (k2, S)]"
  have sh: "shrink_candidates_map ?m = ?m"
    using assms(3) by (simp add: shrink_candidates_map_def)
  have lk: "lookup ?m k1 = S" "lookup ?m k2 = S"
    using assms(1) by (simp_all add: lookup_def)
  have "map snd (sort_candidate_groups ?m sbt) = [S, S]"
    using assms(1) lk
    by (cases sbt; cases "k1 \<le> k2") (auto simp: sort_candidate_groups_def Let_def)
  then have cl: "clean_dup_groups (sort_candidate_groups ?m sbt) = [S]"
    by (simp add: clean_dup_groups_def)
  have c: "1 < card (set (sorted_list_of_set S))" "1 < length (sorted_list_of_set S)"
    using assms(2,3) by simp_all
  have "partition_using_exemptions (sorted_list_of_set S) Map.empty = [sorted_list_of_set S]"
    using assms(2) c by (simp add: partition_empty)
  then show ?thesis
    using c(2) by (simp add: find_duplicates_from_def sh convert_to_groups_def cl sorted_sort_id)
qed

lemma S5_candidates:
  assumes "t \<noteq> []"
  shows "find_title_author_candidates sample_runtime (library_S5 t) [1, 2] title_fn
           (Some (similar_authors_match sample_runtime)) include_languages
         = [(title_fn t None @ ustr ''kevin anderson'', {1, 2}),
            (title_fn t None @ ustr ''anderson kevin'', {1, 2})]"
proof -
  have t: "title (library_S5 t) 1 = Some t" "title (library_S5 t) 2 = Some t"
    "languages (library_S5 t) 1 = None" "languages (library_S5 t) 2 = None"
    by (simp_all add: library_S5_def library_def)
  have b1: "add_book sample_runtime (library_S5 t) title_fn (Some (similar_authors_match sample_runtime))
              include_languages [] 1
            = [(title_fn t None @ ustr ''kevin anderson'', {1}),
               (title_fn t None @ ustr ''anderson kevin'', {1})]"
    using assms S5_authors(1)[of t] S5_author_keys(1)
    by (simp add: add_book_def t truthy_def add_author_def add_candidate_def Let_def)
  have b2: "add_book sample_runtime (library_S5 t) title_fn (Some (similar_authors_match sample_runtime))
              include_languages
              [(title_fn t None @ ustr ''kevin anderson'', {1}),
               (title_fn t None @ ustr ''anderson kevin'', {1})] 2
            = [(title_fn t None @ ustr ''kevin anderson'', {1, 2}),
               (title_fn t None @ ustr ''anderson kevin'', {1, 2})]"
    using assms S5_authors(2)[of t] S5_author_keys(2)
    by (simp add: add_book_def t truthy_def add_author_def add_candidate_def Let_def insert_commute)
  show ?thesis
    unfolding find_title_author_candidates_def by (simp only: foldl.simps b1 b2)
qed

lemma field_tokens:
  "get_series_tokens sample_runtime (ustr ''The Dark Tower'') True = [ustr ''dark'', ustr ''tower'']"
  "get_publisher_tokens sample_runtime (ustr ''Random House Inc'') True = [ustr ''random'', ustr ''house'']"
  "get_series_tokens sample_runtime (ustr ''Angel'') True = [ustr ''angel'']"
  "get_publisher_tokens sample_runtime (ustr ''Tor'') True = [ustr ''tor'']"
  "get_tag_tokens sample_runtime (ustr ''Fantasy'') True = [ustr ''fantasy'']"
  by code_simp+

lemma field_keys:
  "soundex_series_match sample_runtime (set_series_soundex_length 8 default_config) (ustr ''The Dark Tower'')
     = ustr ''D6236000''"
  "soundex_publisher_match sample_runtime (set_series_soundex_length 8 default_config) (ustr ''Random House Inc'')
     = ustr ''R53520''"
  "soundex_series_match sample_runtime (set_series_soundex_length 8 default_config) (ustr ''Angel'') = ustr ''A524''"
  "soundex_publisher_match sample_runtime (set_series_soundex_length 8 default_config) (ustr ''Tor'') = ustr ''T600''"
  "soundex_tags_match sample_runtime (set_series_soundex_length 8 default_config) (ustr ''Fantasy'') = ustr ''F532''"
  by code_simp+

lemma mieville_nfd: "normalize_NFD sample_runtime [77, 105, 233, 118] = [77, 105, 101, 769, 118]"
  by code_simp

lemma mieville_fold: "decode_unicode sample_runtime [77, 105, 233, 118] = ustr ''Miev''"
  by code_simp

lemma sample_full: "\<forall>c. \<forall>c'\<in>set (decomposition sample_runtime c). decomposition sample_runtime c' = [c']"
  by (simp add: sample_runtime_def)



section \<open>The claims of the specification\<close>

subsection \<open>C1: exemption safety\<close>

text \<open>
  C1, as stated, fails for the author-only search. That search partitions author names
  with the author exemption map and never reads the book exemption map: the library holds
  book 1 by \<^verbatim>\<open>John Smith\<close> and book 2 by \<^verbatim>\<open>Smith, John\<close>, books 1 and 2 are exempt from
  each other, and the search returns the group \<open>[1, 2]\<close>.
\<close>

theorem exemption_author_only_counterexample:
  "find_duplicates sample_runtime library_name_order exempt_1_2 Map.empty Author_only
     (identical_title_match sample_runtime) (Some (similar_authors_match sample_runtime))
     (ustr ''isbn'') False True None
   = Inr [\<lparr>group_id = 1, book_ids = [1, 2],
           match_key = ustr ''['' @ [39] @ ustr ''John Smith'' @ [39] @ ustr '', '' @ [39]
                       @ ustr ''Smith, John'' @ [39] @ ustr '']''\<rparr>]
   \<and> 2 \<in> set (merge_sets exempt_1_2 1) \<and> 1 \<in> set (merge_sets exempt_1_2 2)"
  using name_order_groups exempt_1_2_holds by simp

text \<open>
  C1, amended. For every exemption map \<open>E\<close>, symmetric or not: no list returned by the
  partitioner for \<open>E\<close> holds two different ids \<open>x\<close>, \<open>y\<close> with \<open>y\<close> in \<open>E[x]\<close>; the same
  holds for every group that the orchestrator makes from a candidate map with \<open>E\<close>; and so
  it holds, with the book exemption map, for every group that \<open>find_duplicates\<close> returns
  when the search type is not the author-only search.
\<close>

theorem exemption_safety:
  "(g \<in> set (partition_using_exemptions D E) \<and> x \<in> set g \<and> y \<in> set g \<and> x \<noteq> y
      \<longrightarrow> y \<notin> set (merge_sets E x))
   \<and> (K \<in> set (find_duplicates_from cm by_title E') \<and> u \<in> set (book_ids K)
       \<and> v \<in> set (book_ids K) \<and> u \<noteq> v
      \<longrightarrow> v \<notin> set (merge_sets E' u))
   \<and> (search \<noteq> Author_only
       \<and> find_duplicates rt d book_exemptions author_exemptions search title_fn author_fn
            identifier_type include_languages sort_by_title ids = Inr groups
       \<and> G \<in> set groups \<and> a \<in> set (book_ids G) \<and> b \<in> set (book_ids G) \<and> a \<noteq> b
      \<longrightarrow> b \<notin> set (merge_sets book_exemptions a))"
proof (intro conjI impI)
  assume "g \<in> set (partition_using_exemptions D E) \<and> x \<in> set g \<and> y \<in> set g \<and> x \<noteq> y"
  then show "y \<notin> set (merge_sets E x)" using partition_safe by blast
next
  assume "K \<in> set (find_duplicates_from cm by_title E') \<and> u \<in> set (book_ids K)
       \<and> v \<in> set (book_ids K) \<and> u \<noteq> v"
  then show "v \<notin> set (merge_sets E' u)" using find_duplicates_from_safe by blast
next
  assume h: "search \<noteq> Author_only
       \<and> find_duplicates rt d book_exemptions author_exemptions search title_fn author_fn
            identifier_type include_languages sort_by_title ids = Inr groups
       \<and> G \<in> set groups \<and> a \<in> set (book_ids G) \<and> b \<in> set (book_ids G) \<and> a \<noteq> b"
  then obtain m :: "(ustring, int) candidates"
    where "groups = find_duplicates_from m sort_by_title book_exemptions"
    using find_duplicates_origin by blast
  with h have "G \<in> set (find_duplicates_from m sort_by_title book_exemptions)" by simp
  from find_duplicates_from_safe[OF this] h show "b \<notin> set (merge_sets book_exemptions a)" by blast
qed

theorem exemption_safety_witness:
  "[1, 2] \<in> set (partition_using_exemptions [1, 2, 3] exempt_1_3)
   \<and> (1::int) \<in> set [1, 2] \<and> (2::int) \<in> set [1, 2] \<and> (1::int) \<noteq> 2
   \<and> 2 \<notin> set (merge_sets exempt_1_3 1)
   \<and> find_duplicates_from candidates_a True exempt_a
      = [\<lparr>group_id = 1, book_ids = [4, 5], match_key = []\<rparr>,
         \<lparr>group_id = 2, book_ids = [1, 6], match_key = []\<rparr>,
         \<lparr>group_id = 3, book_ids = [2, 6], match_key = []\<rparr>,
         \<lparr>group_id = 4, book_ids = [3, 6], match_key = []\<rparr>]
   \<and> 6 \<notin> set (merge_sets exempt_a 1)
   \<and> Title_author \<noteq> Author_only
   \<and> find_duplicates sample_runtime library_two_pairs exempt_1_4 Map.empty Title_author
        (identical_title_match sample_runtime) (Some (identical_authors_match sample_runtime))
        (ustr ''isbn'') False True None
      = Inr [\<lparr>group_id = 1, book_ids = [1, 2, 3], match_key = []\<rparr>,
             \<lparr>group_id = 2, book_ids = [1, 2], match_key = []\<rparr>,
             \<lparr>group_id = 3, book_ids = [2, 4], match_key = []\<rparr>]
   \<and> 2 \<notin> set (merge_sets exempt_1_4 1)"
proof -
  let ?gs = "[\<lparr>group_id = 1, book_ids = [1, 2, 3], match_key = []\<rparr>,
             \<lparr>group_id = 2, book_ids = [1, 2::int], match_key = []\<rparr>,
             \<lparr>group_id = 3, book_ids = [2, 4], match_key = []\<rparr>]"
  note inst = exemption_safety [of "[1, 2]" "[1, 2, 3]" exempt_1_3 1 2
      "\<lparr>group_id = 2, book_ids = [1, 6], match_key = []\<rparr>" candidates_a True exempt_a 1 6
      Title_author sample_runtime
      library_two_pairs exempt_1_4 Map.empty "identical_title_match sample_runtime"
      "Some (identical_authors_match sample_runtime)" "ustr ''isbn''" False True None
      "?gs" "\<lparr>group_id = 2, book_ids = [1, 2], match_key = []\<rparr>" 1 2]
  from inst partition_1_2_3 candidates_a_groups two_pairs_groups show ?thesis
    by simp
qed

subsection \<open>C2: a book in at most one group\<close>




subsection \<open>C3: subset pruning\<close>

text \<open>
  C3, as stated, fails when an exemption splits a candidate set after the pruning. Books 1
  and 2 have the authors Ann and Bob, book 3 has Ann, book 4 has Bob, and books 1 and 4 are
  exempt from each other. The candidate sets \<open>{1, 2, 3}\<close> and \<open>{1, 2, 4}\<close> both pass the
  pruning; the partitioner then splits the second into \<open>[1, 2]\<close> and \<open>[2, 4]\<close>, and the
  returned group \<open>[1, 2]\<close> is a proper subset of the returned group \<open>[1, 2, 3]\<close>.
\<close>

theorem subset_pruning_counterexample:
  "find_duplicates sample_runtime library_two_pairs exempt_1_4 Map.empty Title_author
     (identical_title_match sample_runtime) (Some (identical_authors_match sample_runtime))
     (ustr ''isbn'') False True None
   = Inr [\<lparr>group_id = 1, book_ids = [1, 2, 3], match_key = []\<rparr>,
          \<lparr>group_id = 2, book_ids = [1, 2], match_key = []\<rparr>,
          \<lparr>group_id = 3, book_ids = [2, 4], match_key = []\<rparr>]
   \<and> set [1, 2] \<subset> set [1, 2, 3::int]"
proof -
  have "(3::int) \<in> set [1, 2, 3]" "(3::int) \<notin> set [1, 2]" by simp_all
  then have "set [1, 2] \<noteq> set [1, 2, 3::int]" by blast
  moreover have "set [1, 2] \<subseteq> set [1, 2, 3::int]" by auto
  ultimately have "set [1, 2] \<subset> set [1, 2, 3::int]" by blast
  with two_pairs_groups show ?thesis by blast
qed

text \<open>
  C3, amended. For a candidate map of finite sets, no set that \<open>clean_dup_groups\<close> keeps
  is a proper subset of another set it keeps; and when the exemption map is empty, no
  group that the orchestrator returns is a proper subset of another returned group.
\<close>

theorem subset_pruning_sound:
  assumes "\<forall>kv\<in>set cm. finite (snd kv)"
  shows "(A \<in> set (clean_dup_groups cm) \<and> B \<in> set (clean_dup_groups cm) \<longrightarrow> \<not> A \<subset> B)
       \<and> (G \<in> set (find_duplicates_from cm sort_by_title Map.empty)
            \<and> H \<in> set (find_duplicates_from cm sort_by_title Map.empty)
          \<longrightarrow> \<not> set (book_ids G) \<subset> set (book_ids H))"
  using clean_dup_groups_antichain[OF assms] find_duplicates_from_antichain[OF assms] by blast

theorem subset_pruning_sound_witness:
  "clean_dup_groups candidates_c = [{4, 5}, {1, 2, 3}]
   \<and> \<not> {4, 5} \<subset> {1, 2, 3::int}
   \<and> find_duplicates_from candidates_c True Map.empty
       = [\<lparr>group_id = 1, book_ids = [4, 5], match_key = []\<rparr>,
          \<lparr>group_id = 2, book_ids = [1, 2, 3], match_key = []\<rparr>]
   \<and> \<not> set [4, 5] \<subset> set [1, 2, 3::int]"
proof -
  let ?G = "\<lparr>group_id = 1, book_ids = [4, 5::int], match_key = []\<rparr>"
  let ?H = "\<lparr>group_id = 2, book_ids = [1, 2, 3::int], match_key = []\<rparr>"
  have fin: "\<forall>kv\<in>set candidates_c. finite (snd kv)" by (simp add: candidates_c_def)
  from subset_pruning_sound [OF fin, of "{4, 5}" "{1, 2, 3}" ?G True ?H]
  have "\<not> {4, 5} \<subset> {1, 2, 3::int}" "\<not> set [4, 5] \<subset> set [1, 2, 3::int]"
    by (simp_all add: candidates_c_clean candidates_c_groups)
  with candidates_c_clean candidates_c_groups show ?thesis by blast
qed

subsection \<open>C4: determinism\<close>

text \<open>
  C4. In the model \<open>find_duplicates\<close> is a function of the library, the configuration and
  the exemption maps. What the Python runtime may vary between two runs over identical
  contents is the order in which a candidate dictionary received its keys and the order in
  which a set is iterated. The result does not depend on either: two candidate maps that
  hold the same sets under the same keys, and exemption maps that hold the same sets, give
  the same sequence of groups, with the same group ids, id lists and match keys.
\<close>

theorem find_duplicates_deterministic:
  assumes "distinct (map fst cm)" and "distinct (map fst cm')" and "set cm = set cm'"
    and "same_exemptions book_exemptions book_exemptions'"
    and "same_exemptions author_exemptions author_exemptions'"
  shows "find_duplicates_from cm sort_by_title book_exemptions
           = find_duplicates_from cm' sort_by_title book_exemptions'
       \<and> find_duplicates rt d book_exemptions author_exemptions search title_fn author_fn
            identifier_type include_languages sort_by_title ids
           = find_duplicates rt d book_exemptions' author_exemptions' search title_fn author_fn
            identifier_type include_languages sort_by_title ids"
proof
  show "find_duplicates_from cm sort_by_title book_exemptions
           = find_duplicates_from cm' sort_by_title book_exemptions'"
    using assms(1-4) by (rule find_duplicates_from_order_independent)
  show "find_duplicates rt d book_exemptions author_exemptions search title_fn author_fn
            identifier_type include_languages sort_by_title ids
           = find_duplicates rt d book_exemptions' author_exemptions' search title_fn author_fn
            identifier_type include_languages sort_by_title ids"
    by (cases search)
       (simp_all add: find_duplicates_def Let_def find_duplicates_from_exempt_cong[OF assms(4)]
          find_author_only_exempt_cong[OF assms(5)] split: option.splits)
qed

theorem find_duplicates_deterministic_witness:
  "find_duplicates_from candidates_a True exempt_a = find_duplicates_from candidates_b True exempt_b
   \<and> find_duplicates_from candidates_b True exempt_b
       = [\<lparr>group_id = 1, book_ids = [4, 5], match_key = []\<rparr>,
          \<lparr>group_id = 2, book_ids = [1, 6], match_key = []\<rparr>,
          \<lparr>group_id = 3, book_ids = [2, 6], match_key = []\<rparr>,
          \<lparr>group_id = 4, book_ids = [3, 6], match_key = []\<rparr>]
   \<and> merge_sets exempt_a 1 = [2, 3] \<and> merge_sets exempt_b 1 = [3, 2]"
proof -
  have 1: "distinct (map fst candidates_a)" "distinct (map fst candidates_b)"
    by (simp_all add: candidates_a_def candidates_b_def)
  have 2: "set candidates_a = set candidates_b"
    by (auto simp: candidates_a_def candidates_b_def)
  have 3: "same_exemptions exempt_a exempt_b"
    by (auto simp: same_exemptions_def exempt_a_def exempt_b_def merge_sets_def)
  have 4: "same_exemptions (Map.empty :: ustring exemptions) Map.empty"
    by (simp add: same_exemptions_def merge_sets_def)
  have 5: "merge_sets exempt_a 1 = [2, 3]" "merge_sets exempt_b 1 = [3, 2]"
    by (simp_all add: exempt_a_def exempt_b_def merge_sets_def)
  from find_duplicates_deterministic [OF 1 2 3 4, of True] candidates_b_groups 5
  show ?thesis by simp
qed

subsection \<open>C5: name-order inversion (scenario S5)\<close>

text \<open>
  C5. The library holds exactly two books with one and the same title \<open>t\<close> (not empty:
  a book without title is skipped); book 1 has the single author \<^verbatim>\<open>Kevin J Anderson\<close> and
  book 2 the single author \<^verbatim>\<open>Anderson, Kevin J\<close>, which the library store hands over as
  \<^verbatim>\<open>Anderson| Kevin J\<close>. With the similar author policy, no exemption, and any title policy
  (the similar one among them), \<open>find_duplicates\<close> returns exactly one group, \<open>[1, 2]\<close>.
  Both names get the key \<^verbatim>\<open>kevin anderson\<close> and the reversed key \<^verbatim>\<open>anderson kevin\<close>, so
  the two books lie together in both buckets.
\<close>

theorem name_order_inversion_S5:
  assumes "t \<noteq> []"
  shows "find_duplicates sample_runtime (library_S5 t) Map.empty author_exemptions Title_author
           title_fn (Some (similar_authors_match sample_runtime)) identifier_type
           include_languages sort_by_title None
         = Inr [\<lparr>group_id = 1, book_ids = [1, 2], match_key = []\<rparr>]
       \<and> authors_to_list sample_runtime (library_S5 t) 1 = [ustr ''Kevin J Anderson'']
       \<and> authors_to_list sample_runtime (library_S5 t) 2 = [ustr ''Anderson, Kevin J'']
       \<and> similar_authors_match sample_runtime (ustr ''Kevin J Anderson'')
           = (ustr ''kevin anderson'', Some (ustr ''anderson kevin''))
       \<and> similar_authors_match sample_runtime (ustr ''Anderson, Kevin J'')
           = (ustr ''kevin anderson'', Some (ustr ''anderson kevin''))
       \<and> find_title_author_candidates sample_runtime (library_S5 t) [1, 2] title_fn
           (Some (similar_authors_match sample_runtime)) include_languages
           = [(title_fn t None @ ustr ''kevin anderson'', {1, 2}),
              (title_fn t None @ ustr ''anderson kevin'', {1, 2})]"
proof -
  have ids: "all_ids (library_S5 t) = [1, 2]" by (simp add: library_S5_def library_def)
  have ne: "title_fn t None @ ustr ''kevin anderson'' \<noteq> title_fn t None @ ustr ''anderson kevin''"
    by simp
  have "find_duplicates_from [(title_fn t None @ ustr ''kevin anderson'', {1, 2::int}),
            (title_fn t None @ ustr ''anderson kevin'', {1, 2})] sort_by_title Map.empty
        = [\<lparr>group_id = 1, book_ids = sorted_list_of_set {1, 2}, match_key = []\<rparr>]"
    using ne by (rule pair_of_equal_candidates) simp_all
  moreover have "sorted_list_of_set {1, 2::int} = [1, 2]" by code_simp
  ultimately have "find_duplicates sample_runtime (library_S5 t) Map.empty author_exemptions Title_author
           title_fn (Some (similar_authors_match sample_runtime)) identifier_type
           include_languages sort_by_title None
         = Inr [\<lparr>group_id = 1, book_ids = [1, 2], match_key = []\<rparr>]"
    by (simp only: find_duplicates_def Let_def ids option.case search_type.case S5_candidates[OF assms])
  with S5_authors S5_author_keys S5_candidates[OF assms] show ?thesis by blast
qed

theorem name_order_inversion_S5_witness:
  "ustr ''Dune'' \<noteq> []
   \<and> find_duplicates sample_runtime (library_S5 (ustr ''Dune'')) Map.empty Map.empty Title_author
        (similar_title_match sample_runtime) (Some (similar_authors_match sample_runtime))
        (ustr ''isbn'') False True None
      = Inr [\<lparr>group_id = 1, book_ids = [1, 2], match_key = []\<rparr>]
   \<and> similar_title_match sample_runtime (ustr ''Dune'') None = ustr ''dune''"
proof -
  have "ustr ''Dune'' \<noteq> []" by simp
  moreover have "similar_title_match sample_runtime (ustr ''Dune'') None = ustr ''dune''"
    by code_simp
  moreover note name_order_inversion_S5 [OF calculation(1), of Map.empty "similar_title_match sample_runtime"
      "ustr ''isbn''" False True]
  ultimately show ?thesis by blast
qed

subsection \<open>C6: exemption partition (scenario S6)\<close>

text \<open>
  C6. The partitioner, applied to the id list \<open>[1, 2, 3]\<close> and the exemption map that holds
  the single symmetric exemption of 1 and 3, returns the two sorted lists \<open>[1, 2]\<close> and
  \<open>[2, 3]\<close>, in this order; id 2 is in both.
\<close>

theorem partition_scenario_S6:
  "partition_using_exemptions [1, 2, 3::int] (add_exemption Map.empty 1 3) = [[1, 2], [2, 3]]
   \<and> merge_sets (add_exemption Map.empty 1 3) 1 = [3::int]
   \<and> merge_sets (add_exemption Map.empty 1 3) 3 = [1::int]"
  using partition_1_2_3
  by (simp add: exempt_1_3_def add_exemption_def merge_sets_def set_add_def)

subsection \<open>C7: the soundex procedure\<close>

text \<open>
  C7. For every string \<open>s\<close>, every runtime and every requested length \<open>len \<ge> 0\<close>, the
  code's \<open>soundex\<close> returns what the procedure of the specification returns (uppercase,
  map the letters A to Z through the table, collapse adjacent equal digits, put the first
  letter in place of the first digit, delete the zeros, pad with zeros and truncate), and
  the result has exactly \<open>len\<close> characters.
\<close>

theorem soundex_refines_spec:
  "0 \<le> len \<Longrightarrow>
   soundex rt s len = soundex_spec rt s (nat len) \<and> length (soundex rt s len) = nat len"
proof -
  assume len: "0 \<le> len"
  have loop: "foldl soundex_step ([], []) (upper rt s) =
      (remdups_adj (map digit_of (filter is_AZ (upper rt s))), take 1 (filter is_AZ (upper rt s)))"
    using soundex_loop[of "[]" "[]" "upper rt s"] by simp
  have eq: "soundex rt s len = soundex_spec rt s (nat len)"
    using len unfolding soundex_def soundex_spec_def loop
    by (simp add: slice_to_def Let_def drop_Suc is_AZ_def[abs_def] digit_of_def[abs_def])
  moreover have "length (soundex_spec rt s (nat len)) = nat len"
    by (simp add: soundex_spec_def Let_def)
  ultimately show ?thesis by simp
qed

theorem soundex_refines_spec_witness:
  "(0::int) \<le> 6
   \<and> soundex sample_runtime (ustr ''Robert'') 6 = soundex_spec sample_runtime (ustr ''Robert'') (nat 6)
   \<and> length (soundex sample_runtime (ustr ''Robert'') 6) = nat 6
   \<and> soundex sample_runtime (ustr ''Robert'') 6 = ustr ''R16300''"
proof -
  have "(0::int) \<le> 6" by simp
  from soundex_refines_spec [OF this, of sample_runtime "ustr ''Robert''"] soundex_robert
  show ?thesis by simp
qed

subsection \<open>C8: soundex lengths of the series, publisher and tag fields\<close>

text \<open>
  C8, as stated, fails for a field value with a single token: the key is then computed
  with the default length 4 of \<open>soundex\<close>, not with the configured length of the field.
  With the default configuration (series length 6) the series \<^verbatim>\<open>Angel\<close> gets the key
  \<^verbatim>\<open>A524\<close>, while soundex of its token with the series length is \<^verbatim>\<open>A52400\<close>.
\<close>

theorem soundex_length_counterexample:
  "get_series_tokens sample_runtime (ustr ''Angel'') True = [ustr ''angel'']
   \<and> series_soundex_length default_config = 6
   \<and> soundex_series_match sample_runtime default_config (ustr ''Angel'') = ustr ''A524''
   \<and> soundex sample_runtime (join [] [ustr ''angel'']) 6 = ustr ''A52400''"
  by code_simp

text \<open>
  C8, amended. For a series or publisher value with at least two tokens, the soundex key
  is soundex of the concatenated tokens with the configured length of that field; for a
  series, publisher or tag value with at most one token, the key is soundex of the
  concatenated tokens with length 4, whatever the configuration.
\<close>

theorem soundex_field_lengths:
  "(2 \<le> length (get_series_tokens rt series True) \<longrightarrow>
      soundex_series_match rt cfg series
        = soundex rt (join [] (get_series_tokens rt series True)) (series_soundex_length cfg))
   \<and> (2 \<le> length (get_publisher_tokens rt publisher True) \<longrightarrow>
      soundex_publisher_match rt cfg publisher
        = soundex rt (join [] (get_publisher_tokens rt publisher True)) (publisher_soundex_length cfg))
   \<and> (length (get_series_tokens rt series1 True) \<le> 1 \<longrightarrow>
      soundex_series_match rt cfg series1 = soundex rt (join [] (get_series_tokens rt series1 True)) 4)
   \<and> (length (get_publisher_tokens rt publisher1 True) \<le> 1 \<longrightarrow>
      soundex_publisher_match rt cfg publisher1
        = soundex rt (join [] (get_publisher_tokens rt publisher1 True)) 4)
   \<and> (length (get_tag_tokens rt tag1 True) \<le> 1 \<longrightarrow>
      soundex_tags_match rt cfg tag1 = soundex rt (join [] (get_tag_tokens rt tag1 True)) 4)"
  by (simp add: soundex_series_match_def soundex_publisher_match_def soundex_tags_match_def Let_def)

theorem soundex_field_lengths_witness:
  "soundex_series_match sample_runtime (set_series_soundex_length 8 default_config) (ustr ''The Dark Tower'')
     = soundex sample_runtime (join [] [ustr ''dark'', ustr ''tower'']) 8
   \<and> soundex_series_match sample_runtime (set_series_soundex_length 8 default_config) (ustr ''The Dark Tower'')
     = ustr ''D6236000''
   \<and> soundex_publisher_match sample_runtime (set_series_soundex_length 8 default_config) (ustr ''Random House Inc'')
     = soundex sample_runtime (join [] [ustr ''random'', ustr ''house'']) 6
   \<and> soundex_series_match sample_runtime (set_series_soundex_length 8 default_config) (ustr ''Angel'')
     = soundex sample_runtime (join [] [ustr ''angel'']) 4
   \<and> soundex_publisher_match sample_runtime (set_series_soundex_length 8 default_config) (ustr ''Tor'')
     = soundex sample_runtime (join [] [ustr ''tor'']) 4
   \<and> soundex_tags_match sample_runtime (set_series_soundex_length 8 default_config) (ustr ''Fantasy'')
     = soundex sample_runtime (join [] [ustr ''fantasy'']) 4"
proof -
  let ?cfg = "set_series_soundex_length 8 default_config"
  have l: "series_soundex_length ?cfg = 8" "publisher_soundex_length ?cfg = 6"
    by (simp_all add: set_series_soundex_length_def default_config_def)
  note inst = soundex_field_lengths [of sample_runtime "ustr ''The Dark Tower''" ?cfg
      "ustr ''Random House Inc''" "ustr ''Angel''" "ustr ''Tor''" "ustr ''Fantasy''"]
  from inst show ?thesis
    unfolding field_tokens l using field_keys(1) by simp
qed

subsection \<open>C9: the Unicode fold\<close>

text \<open>
  C9, as stated, fails on a string in which a mark of category Mn and combining class 0
  stands between two spacing marks (category Mc) whose combining classes are not zero and
  out of order. U+1D16D (class 226), U+034F (Mn, class 0), U+1D165 (class 216) is in
  normal form, since the class 0 character blocks the reordering; the fold removes U+034F,
  and the second fold reorders the two marks that are now adjacent.
\<close>

theorem decode_unicode_counterexample:
  "decode_unicode sample_runtime [119149, 847, 119141] = [119149, 119141]
   \<and> decode_unicode sample_runtime (decode_unicode sample_runtime [119149, 847, 119141])
       = [119141, 119149]"
  by code_simp

text \<open>
  C9, amended. Take any character tables in which \<open>decomposition\<close> is the full
  decomposition (a character of a decomposition decomposes into itself). For every string
  \<open>s\<close> in whose normal form every character with a combining class other than zero has
  category Mn, folding the folded string gives the folded string again; and the fold of the
  empty string is the empty string.
\<close>

theorem decode_unicode_idempotent:
  assumes full: "\<forall>c. \<forall>c'\<in>set (decomposition rt c). decomposition rt c' = [c']"
    and marks: "\<forall>c\<in>set (normalize_NFD rt s). combining rt c \<noteq> 0 \<longrightarrow> is_Mn rt c"
  shows "decode_unicode rt (decode_unicode rt s) = decode_unicode rt s \<and> decode_unicode rt [] = []"
proof
  show "decode_unicode rt [] = []" by (simp add: decode_unicode_def)
  let ?t = "filter (\<lambda>char. \<not> is_Mn rt char) (normalize_NFD rt s)"
  have dec: "\<forall>x\<in>set ?t. decomposition rt x = [x]"
    using full normalize_NFD_chars by fastforce
  have st: "\<forall>x\<in>set ?t. combining rt x = 0"
    using marks by auto
  have "concat (map (decomposition rt) ?t) = ?t"
    using dec by (rule concat_map_fixed)
  moreover have "canonical_order (combining rt) ?t = ?t"
    using st by (rule canonical_order_starters)
  ultimately have "normalize_NFD rt ?t = ?t"
    by (simp only: normalize_NFD_def)
  then have "decode_unicode rt ?t = ?t"
    by (simp add: decode_unicode_def)
  then show "decode_unicode rt (decode_unicode rt s) = decode_unicode rt s"
    by (simp add: decode_unicode_def)
qed

theorem decode_unicode_idempotent_witness:
  "decode_unicode sample_runtime (decode_unicode sample_runtime [77, 105, 233, 118])
     = decode_unicode sample_runtime [77, 105, 233, 118]
   \<and> decode_unicode sample_runtime [77, 105, 233, 118] = ustr ''Miev''
   \<and> decode_unicode sample_runtime [] = []"
proof -
  have "\<forall>c\<in>set (normalize_NFD sample_runtime [77, 105, 233, 118]).
          combining sample_runtime c \<noteq> 0 \<longrightarrow> is_Mn sample_runtime c"
    unfolding mieville_nfd by (simp add: sample_runtime_def)
  from decode_unicode_idempotent [OF sample_full this] mieville_fold show ?thesis by simp
qed

subsection \<open>C10: the partitioner returns ids of its input\<close>

text \<open>
  C10. Every element of every list that the partitioner returns is an element of its input
  list, whatever the exemption map holds: an id that occurs only in an exemption set never
  appears in the output.
\<close>

theorem partition_ids_from_input:
  "g \<in> set (partition_using_exemptions data_items E) \<Longrightarrow> x \<in> set g \<Longrightarrow> x \<in> set data_items"
  using partition_subset by blast

theorem partition_ids_from_input_witness:
  "[2, 3] \<in> set (partition_using_exemptions [1, 2, 3] exempt_1_3) \<and> (3::int) \<in> set [2, 3]
   \<and> (3::int) \<in> set [1, 2, 3]
   \<and> merge_sets (add_exemption exempt_1_3 2 7) 2 = [7]
   \<and> partition_using_exemptions [1, 2, 3] (add_exemption exempt_1_3 2 7) = [[1, 2], [2, 3]]"
proof -
  have "partition_using_exemptions [1, 2, 3] (add_exemption exempt_1_3 2 7) = [[1, 2], [2, 3]]"
    unfolding exempt_1_3_def by code_simp
  moreover have "merge_sets (add_exemption exempt_1_3 2 7) 2 = [7]"
    unfolding exempt_1_3_def by code_simp
  moreover note partition_ids_from_input [of "[2, 3]" "[1, 2, 3]" exempt_1_3 3]
  ultimately show ?thesis by (simp add: partition_1_2_3)
qed

end
